theory Spec2Isabelle
  imports Complex_Main "HOL-Library.Log_Nat"
begin

section \<open>ishap: a fixed-timestep runner\<close>

text \<open>
  A shallow embedding of \<^verbatim>\<open>include/ishap/ishap.hpp\<close>: the class
  \<^verbatim>\<open>ishap::timestep::FixedTimestepRunner\<close> and its \<^verbatim>\<open>Config\<close>.

  \<^item> \<^verbatim>\<open>std::chrono::nanoseconds\<close> and \<^verbatim>\<open>steady_clock::time_point\<close> are
    signed 64-bit tick counts. They are integers here, and every signed operation of
    the source whose mathematical result leaves the 64-bit range is undefined behaviour
    in C++: the model returns the failure \<open>Undefined_Behaviour\<close> there.
  \<^item> \<^verbatim>\<open>size_t\<close> is a natural number; the only arithmetic on it is \<^verbatim>\<open>++steps\<close>
    below the bound \<^verbatim>\<open>safety_max_substeps\<close>, and the unsigned product that
    computes the accumulator ceiling, whose wrap-around is written out.
  \<^item> A finite \<^verbatim>\<open>double\<close> is the rational number it denotes. Every conversion of an
    integer to \<^verbatim>\<open>double\<close>, every product and every quotient is rounded to the nearest
    binary64 value, ties to even, as IEEE 754 arithmetic does; a result beyond the
    largest finite value is an infinity. The field \<^verbatim>\<open>time_scale\<close> holds a finite
    \<^verbatim>\<open>double\<close>. The operations \<^verbatim>\<open>set_hz\<close> and \<^verbatim>\<open>hz\<close>, which only convert between a
    rate and a step, are left out.
  \<^item> The two \<^verbatim>\<open>std::function\<close> members are optional functions on a user world
    \<open>'w\<close> that report whether the call returned or threw; an empty
    \<^verbatim>\<open>std::function\<close> is \<open>None\<close>. They act on the world only, never on the runner
    that calls them. Every invocation is appended to a log, with its outcome.
  \<^item> \<^verbatim>\<open>steady_clock::now()\<close> is an argument of the operations that read the clock.
\<close>

subsection \<open>Durations, failures, callbacks\<close>

type_synonym nanoseconds = int

datatype failure = Undefined_Behaviour | Terminate

definition int64_range :: "int \<Rightarrow> bool" where
  "int64_range x \<longleftrightarrow> - (2 ^ 63) \<le> x \<and> x < 2 ^ 63"

definition checked :: "int \<Rightarrow> failure + nanoseconds" where
  "checked x = (if int64_range x then Inr x else Inl Undefined_Behaviour)"

text \<open>Conversion of an unsigned 64-bit value to the signed type (modular).\<close>

definition to_int64 :: "int \<Rightarrow> int" where
  "to_int64 x = (x + 2 ^ 63) mod 2 ^ 64 - 2 ^ 63"

text \<open>\<^verbatim>\<open>duration_cast\<close> of a double count to nanoseconds: a \<^verbatim>\<open>static_cast\<close> to the
  integer type, which truncates towards zero.\<close>

definition duration_cast :: "rat \<Rightarrow> int" where
  "duration_cast q = (if 0 \<le> q then \<lfloor>q\<rfloor> else \<lceil>q\<rceil>)"

datatype outcome = Returns | Throws

datatype call = Step_Call nanoseconds outcome | Error_Call outcome

record 'w Env =
  world :: 'w
  calls :: "call list"

type_synonym 'w OnStepFunction = "nanoseconds \<Rightarrow> 'w \<Rightarrow> outcome \<times> 'w"
type_synonym 'w OnErrorFunction = "'w \<Rightarrow> outcome \<times> 'w"

subsection \<open>Binary64 arithmetic\<close>

text \<open>
  A \<^verbatim>\<open>double\<close> is a finite value, an infinity or NaN. The finite values are the
  rationals \<open>m * 2 ^ e\<close> with \<open>\<bar>m\<bar> < 2 ^ 53\<close> and \<open>- 1074 \<le> e\<close> below \<open>2 ^ 1024\<close>.
\<close>

datatype double = Finite rat | Pos_Inf | Neg_Inf | NaN

text \<open>Rounding to the nearest integer, ties to the even one.\<close>

definition round_half_even :: "rat \<Rightarrow> int" where
  "round_half_even q =
     (let f = \<lfloor>q\<rfloor>; r = q - of_int f
      in if r < 1 / 2 then f else if 1 / 2 < r then f + 1 else if even f then f else f + 1)"

text \<open>
  The binary exponent of a positive rational \<open>p / q\<close>: the integer \<open>k\<close> with
  \<open>2 ^ k \<le> p / q < 2 ^ (k + 1)\<close>, found from the bit lengths of \<open>p\<close> and \<open>q\<close>.
\<close>

definition ilog2 :: "rat \<Rightarrow> int" where
  "ilog2 a =
     (case quotient_of a of
        (p, q) \<Rightarrow> (let k = bitlen p - bitlen q in if 2 powi k \<le> a then k else k - 1))"

text \<open>
  The exponent of the unit in the last place: 53 significant bits for normal values,
  the fixed spacing \<open>2 ^ - 1074\<close> for subnormal ones.
\<close>

definition ulp_exponent :: "rat \<Rightarrow> int" where
  "ulp_exponent a = max (ilog2 a - 52) (- 1074)"

text \<open>The nearest value on the binary64 grid, before the check for overflow.\<close>

definition nearest :: "rat \<Rightarrow> rat" where
  "nearest x =
     (if x = 0 then 0
      else
        (let a = \<bar>x\<bar>; e = ulp_exponent a;
             y = of_int (round_half_even (a / 2 powi e)) * 2 powi e
         in if 0 < x then y else - y))"

text \<open>The \<^verbatim>\<open>double\<close> that an exact result is rounded to.\<close>

definition to_double :: "rat \<Rightarrow> double" where
  "to_double x =
     (let y = nearest x
      in if 2 powi 1024 \<le> \<bar>y\<bar> then (if 0 < y then Pos_Inf else Neg_Inf) else Finite y)"

subsection \<open>Configuration and runner state\<close>

definition k_step_60hz :: nanoseconds where "k_step_60hz = 16666667"
definition k_step_120hz :: nanoseconds where "k_step_120hz = 8333333"
definition k_step_240hz :: nanoseconds where "k_step_240hz = 4166667"
definition k_default_max_delta :: nanoseconds where "k_default_max_delta = 250000000"
definition k_default_max_substeps :: nat where "k_default_max_substeps = 8"
definition k_default_max_accumulator_overflow :: nat where
  "k_default_max_accumulator_overflow = 3"
definition k_default_time_scale :: rat where "k_default_time_scale = 1"

record Config =
  step :: nanoseconds
  time_scale :: rat
  safety_max_delta :: nanoseconds
  safety_max_substeps :: nat
  safety_max_accumulator_overflow :: nat

definition default_config :: Config where
  "default_config =
     \<lparr> step = k_step_60hz,
       time_scale = k_default_time_scale,
       safety_max_delta = k_default_max_delta,
       safety_max_substeps = k_default_max_substeps,
       safety_max_accumulator_overflow = k_default_max_accumulator_overflow \<rparr>"

record 'w Runner =
  m_on_update_function :: "'w OnStepFunction option"
  m_config :: Config
  m_last :: int
  m_accumulator :: nanoseconds
  m_paused :: bool
  m_step_error_caught :: bool
  m_on_error_function :: "'w OnErrorFunction option"
  m_last_delta :: nanoseconds
  m_last_steps :: nat

text \<open>The default member initialisers.\<close>

definition default_runner :: "'w Runner" where
  "default_runner =
     \<lparr> m_on_update_function = None,
       m_config = default_config,
       m_last = 0,
       m_accumulator = 0,
       m_paused = False,
       m_step_error_caught = False,
       m_on_error_function = None,
       m_last_delta = 0,
       m_last_steps = 0 \<rparr>"

subsection \<open>Public operations\<close>

definition reset :: "bool \<Rightarrow> int \<Rightarrow> 'w Runner \<Rightarrow> 'w Runner" where
  "reset start_now now r =
     (let r1 = r\<lparr> m_accumulator := 0, m_last_delta := 0, m_last_steps := 0,
                  m_paused := False \<rparr>
      in if start_now then r1\<lparr> m_last := now \<rparr> else r1)"

text \<open>The constructor taking a step function and a configuration.\<close>

definition FixedTimestepRunner ::
  "'w OnStepFunction option \<Rightarrow> Config \<Rightarrow> int \<Rightarrow> 'w Runner" where
  "FixedTimestepRunner fn config now =
     reset True now (default_runner\<lparr> m_on_update_function := fn, m_config := config \<rparr>)"

definition set_step :: "nanoseconds \<Rightarrow> 'w Runner \<Rightarrow> 'w Runner" where
  "set_step s r = (if s \<le> 0 then r else r\<lparr> m_config := (m_config r)\<lparr> step := s \<rparr> \<rparr>)"

definition set_max_delta :: "nanoseconds \<Rightarrow> 'w Runner \<Rightarrow> 'w Runner" where
  "set_max_delta d r =
     (if d \<le> 0 then r else r\<lparr> m_config := (m_config r)\<lparr> safety_max_delta := d \<rparr> \<rparr>)"

definition set_max_substeps :: "nat \<Rightarrow> 'w Runner \<Rightarrow> 'w Runner" where
  "set_max_substeps n r =
     r\<lparr> m_config := (m_config r)\<lparr> safety_max_substeps := (if n > 0 then n else 1) \<rparr> \<rparr>"

definition set_time_scale :: "rat \<Rightarrow> 'w Runner \<Rightarrow> 'w Runner" where
  "set_time_scale s r =
     (let s1 = (if s < 0 then 0 else s)
      in r\<lparr> m_config := (m_config r)\<lparr> time_scale := s1 \<rparr> \<rparr>)"

definition pause :: "bool \<Rightarrow> 'w Runner \<Rightarrow> 'w Runner" where
  "pause p r = r\<lparr> m_paused := p \<rparr>"

definition resume :: "'w Runner \<Rightarrow> 'w Runner" where
  "resume r = r\<lparr> m_paused := False \<rparr>"

definition toggle_pause :: "'w Runner \<Rightarrow> 'w Runner" where
  "toggle_pause r = r\<lparr> m_paused := \<not> m_paused r \<rparr>"

definition set_step_function :: "'w OnStepFunction option \<Rightarrow> 'w Runner \<Rightarrow> 'w Runner" where
  "set_step_function fn r = r\<lparr> m_on_update_function := fn \<rparr>"

definition set_error_function :: "'w OnErrorFunction option \<Rightarrow> 'w Runner \<Rightarrow> 'w Runner" where
  "set_error_function fn r = r\<lparr> m_on_error_function := fn \<rparr>"

definition accumulator :: "'w Runner \<Rightarrow> nanoseconds" where
  "accumulator r = m_accumulator r"

definition last_delta :: "'w Runner \<Rightarrow> nanoseconds" where
  "last_delta r = m_last_delta r"

definition last_steps :: "'w Runner \<Rightarrow> nat" where
  "last_steps r = m_last_steps r"

definition step_error_caught :: "'w Runner \<Rightarrow> bool" where
  "step_error_caught r = m_step_error_caught r"

text \<open>
  \<^verbatim>\<open>alpha()\<close> converts the two counts to \<^verbatim>\<open>double\<close> and divides; a zero step gives an
  infinity or NaN.
\<close>

definition alpha :: "'w Runner \<Rightarrow> double" where
  "alpha r =
     (let a = nearest (of_int (m_accumulator r)); s = nearest (of_int (step (m_config r)))
      in if s = 0 then (if 0 < a then Pos_Inf else if a < 0 then Neg_Inf else NaN)
         else to_double (a / s))"

subsection \<open>The core algorithm\<close>

text \<open>
  \<^verbatim>\<open>if (m_on_update_function) m_on_update_function(m_config.step);\<close>
\<close>

definition call_step :: "'w Runner \<Rightarrow> 'w Env \<Rightarrow> outcome \<times> 'w Env" where
  "call_step r env =
     (case m_on_update_function r of
        None \<Rightarrow> (Returns, env)
      | Some f \<Rightarrow>
          (case f (step (m_config r)) (world env) of
             (out, w) \<Rightarrow>
               (out, \<lparr> world = w,
                       calls = calls env @ [Step_Call (step (m_config r)) out] \<rparr>)))"

text \<open>
  \<^verbatim>\<open>if (m_on_error_function) m_on_error_function();\<close>
\<close>

definition call_error :: "'w Runner \<Rightarrow> 'w Env \<Rightarrow> outcome \<times> 'w Env" where
  "call_error r env =
     (case m_on_error_function r of
        None \<Rightarrow> (Returns, env)
      | Some g \<Rightarrow>
          (case g (world env) of
             (out, w) \<Rightarrow> (out, \<lparr> world = w, calls = calls env @ [Error_Call out] \<rparr>)))"

text \<open>
  The \<^verbatim>\<open>try\<close> block of the loop body. An exception of the error function leaves
  the handler and then the \<^verbatim>\<open>noexcept\<close> function: the process terminates.
\<close>

definition try_step :: "'w Runner \<Rightarrow> 'w Env \<Rightarrow> failure + ('w Runner \<times> 'w Env)" where
  "try_step r env =
     (case call_step r env of
        (Returns, env1) \<Rightarrow> Inr (r, env1)
      | (Throws, env1) \<Rightarrow>
          (let r1 = r\<lparr> m_step_error_caught := True \<rparr>
           in case call_error r1 env1 of
                (Returns, env2) \<Rightarrow> Inr (r1, env2)
              | (Throws, env2) \<Rightarrow> Inl Terminate))"

function step_loop ::
  "'w Runner \<Rightarrow> 'w Env \<Rightarrow> nat \<Rightarrow> failure + ('w Runner \<times> 'w Env \<times> nat)" where
  "step_loop r env steps =
     (if step (m_config r) \<le> m_accumulator r \<and> steps < safety_max_substeps (m_config r)
      then (case try_step r env of
              Inl f \<Rightarrow> Inl f
            | Inr (r1, env1) \<Rightarrow>
                (case checked (m_accumulator r1 - step (m_config r1)) of
                   Inl f \<Rightarrow> Inl f
                 | Inr acc \<Rightarrow> step_loop (r1\<lparr> m_accumulator := acc \<rparr>) env1 (steps + 1)))
      else Inr (r, env, steps))"
  by pat_completeness auto
termination
  by (relation "measure (\<lambda>(r, env, steps). safety_max_substeps (m_config r) - steps)")
     (auto simp: try_step_def Let_def split: prod.splits outcome.splits)

declare step_loop.simps [simp del]

text \<open>
  \<^verbatim>\<open>dt * m_config.time_scale\<close>, cast back to nanoseconds: the count is converted to
  \<^verbatim>\<open>double\<close>, the product is rounded to a \<^verbatim>\<open>double\<close>, and the cast truncates it. The
  cast of an infinity, or of a value outside the 64-bit range, is undefined.
\<close>

definition scale_dt :: "Config \<Rightarrow> nanoseconds \<Rightarrow> failure + nanoseconds" where
  "scale_dt cfg dt =
     (if time_scale cfg \<noteq> 1
      then (case to_double (nearest (of_int dt) * time_scale cfg) of
              Finite p \<Rightarrow> checked (duration_cast p)
            | _ \<Rightarrow> Inl Undefined_Behaviour)
      else Inr dt)"

text \<open>
  \<^verbatim>\<open>m_config.step * m_config.safety_max_accumulator_overflow\<close>: the product is taken
  in the common type of the two operands, which is unsigned, and converted back.
\<close>

definition max_acc :: "Config \<Rightarrow> nanoseconds" where
  "max_acc cfg =
     to_int64 ((step cfg mod 2 ^ 64) * int (safety_max_accumulator_overflow cfg) mod 2 ^ 64)"

definition advance ::
  "'w Runner \<Rightarrow> nanoseconds \<Rightarrow> 'w Env \<Rightarrow> failure + (double \<times> 'w Runner \<times> 'w Env)" where
  "advance r raw_elapsed env =
     (if m_paused r
      then (let r1 = r\<lparr> m_last_delta := 0, m_last_steps := 0 \<rparr> in Inr (alpha r1, r1, env))
      else
        (let r1 = r\<lparr> m_step_error_caught := False, m_last_delta := raw_elapsed \<rparr>;
             dt = (if safety_max_delta (m_config r1) < raw_elapsed
                   then safety_max_delta (m_config r1) else raw_elapsed)
         in case scale_dt (m_config r1) dt of
              Inl f \<Rightarrow> Inl f
            | Inr dt1 \<Rightarrow>
                (case checked (m_accumulator r1 + dt1) of
                   Inl f \<Rightarrow> Inl f
                 | Inr acc \<Rightarrow>
                     (case step_loop (r1\<lparr> m_accumulator := acc \<rparr>) env 0 of
                        Inl f \<Rightarrow> Inl f
                      | Inr (r2, env2, steps) \<Rightarrow>
                          (let r3 = r2\<lparr> m_last_steps := steps \<rparr>;
                               r4 = (if max_acc (m_config r3) < m_accumulator r3
                                     then r3\<lparr> m_accumulator := max_acc (m_config r3) \<rparr>
                                     else r3)
                           in Inr (alpha r4, r4, env2))))))"

definition push_time ::
  "'w Runner \<Rightarrow> nanoseconds \<Rightarrow> 'w Env \<Rightarrow> failure + (double \<times> 'w Runner \<times> 'w Env)" where
  "push_time r elapsed env = advance r elapsed env"

definition tick_with_clock ::
  "'w Runner \<Rightarrow> int \<Rightarrow> 'w Env \<Rightarrow> failure + (double \<times> 'w Runner \<times> 'w Env)" where
  "tick_with_clock r tick_timepoint env =
     (if m_paused r
      then (let r1 = r\<lparr> m_last_delta := 0, m_last_steps := 0, m_last := tick_timepoint \<rparr>
            in Inr (alpha r1, r1, env))
      else
        (let r1 = (if m_last r = 0 then r\<lparr> m_last := tick_timepoint \<rparr> else r)
         in case checked (tick_timepoint - m_last r1) of
              Inl f \<Rightarrow> Inl f
            | Inr raw \<Rightarrow> advance (r1\<lparr> m_last := tick_timepoint \<rparr>) raw env))"

text \<open>\<^verbatim>\<open>tick()\<close>, with the reading of the steady clock as its argument.\<close>

definition tick ::
  "'w Runner \<Rightarrow> int \<Rightarrow> 'w Env \<Rightarrow> failure + (double \<times> 'w Runner \<times> 'w Env)" where
  "tick r now env = tick_with_clock r now env"

text \<open>
  The ceiling as the specification names it: the product of the step and the overflow
  multiplier, as integers.
\<close>

definition acc_ceiling :: "Config \<Rightarrow> int" where
  "acc_ceiling cfg = step cfg * int (safety_max_accumulator_overflow cfg)"

subsection \<open>Reading the call log\<close>

fun is_step_call :: "call \<Rightarrow> bool" where
  "is_step_call (Step_Call d out) = True"
| "is_step_call (Error_Call out) = False"

fun is_thrown_step :: "call \<Rightarrow> bool" where
  "is_thrown_step (Step_Call d out) = (out = Throws)"
| "is_thrown_step (Error_Call out) = False"

fun is_error_call :: "call \<Rightarrow> bool" where
  "is_error_call (Step_Call d out) = False"
| "is_error_call (Error_Call out) = True"

definition step_calls :: "call list \<Rightarrow> nat" where
  "step_calls cs = length (filter is_step_call cs)"

definition thrown_steps :: "call list \<Rightarrow> nat" where
  "thrown_steps cs = length (filter is_thrown_step cs)"

definition error_calls :: "call list \<Rightarrow> nat" where
  "error_calls cs = length (filter is_error_call cs)"

definition new_calls :: "'w Env \<Rightarrow> 'w Env \<Rightarrow> call list" where
  "new_calls env env' = drop (length (calls env)) (calls env')"

text \<open>The error function, when one is set, returns normally in every world.\<close>

definition error_function_returns :: "'w Runner \<Rightarrow> bool" where
  "error_function_returns r \<longleftrightarrow>
     (case m_on_error_function r of None \<Rightarrow> True | Some g \<Rightarrow> \<forall>w. fst (g w) = Returns)"

text \<open>The condition of the step loop.\<close>

definition loop_cond :: "'w Runner \<Rightarrow> nat \<Rightarrow> bool" where
  "loop_cond r k \<longleftrightarrow>
     step (m_config r) \<le> m_accumulator r \<and> k < safety_max_substeps (m_config r)"

text \<open>
  What a stretch of the log says about \<open>n\<close> loop iterations of runner \<open>r\<close> that end
  with the flag \<open>caught\<close>: one step call per iteration when a step function is set,
  one error call per thrown step when an error function is set, and the flag raised
  exactly when it was raised before or a step call threw.
\<close>

definition log_ok :: "'w Runner \<Rightarrow> bool \<Rightarrow> nat \<Rightarrow> call list \<Rightarrow> bool" where
  "log_ok r caught n evs \<longleftrightarrow>
     step_calls evs = (if m_on_update_function r = None then 0 else n) \<and>
     error_calls evs = (if m_on_error_function r = None then 0 else thrown_steps evs) \<and>
     (caught \<longleftrightarrow> m_step_error_caught r \<or> 0 < thrown_steps evs)"

subsection \<open>Sequences of public operations\<close>

datatype 'w operation =
    Push_Time nanoseconds
  | Tick int
  | Reset bool int
  | Pause bool
  | Resume
  | Toggle_Pause
  | Set_Step nanoseconds
  | Set_Max_Delta nanoseconds
  | Set_Max_Substeps nat
  | Set_Time_Scale rat

text \<open>One operation on a runner and its environment; the returned alpha is dropped.\<close>

fun apply_op :: "'w operation \<Rightarrow> 'w Runner \<times> 'w Env \<Rightarrow> failure + ('w Runner \<times> 'w Env)" where
  "apply_op (Push_Time e) (r, env) =
     (case push_time r e env of Inl f \<Rightarrow> Inl f | Inr (a, r', env') \<Rightarrow> Inr (r', env'))"
| "apply_op (Tick now) (r, env) =
     (case tick r now env of Inl f \<Rightarrow> Inl f | Inr (a, r', env') \<Rightarrow> Inr (r', env'))"
| "apply_op (Reset start_now now) (r, env) = Inr (reset start_now now r, env)"
| "apply_op (Pause p) (r, env) = Inr (pause p r, env)"
| "apply_op Resume (r, env) = Inr (resume r, env)"
| "apply_op Toggle_Pause (r, env) = Inr (toggle_pause r, env)"
| "apply_op (Set_Step s) (r, env) = Inr (set_step s r, env)"
| "apply_op (Set_Max_Delta d) (r, env) = Inr (set_max_delta d r, env)"
| "apply_op (Set_Max_Substeps n) (r, env) = Inr (set_max_substeps n r, env)"
| "apply_op (Set_Time_Scale s) (r, env) = Inr (set_time_scale s r, env)"

fun run :: "'w operation list \<Rightarrow> 'w Runner \<times> 'w Env \<Rightarrow> failure + ('w Runner \<times> 'w Env)" where
  "run [] st = Inr st"
| "run (x # xs) st = (case apply_op x st of Inl f \<Rightarrow> Inl f | Inr st' \<Rightarrow> run xs st')"

text \<open>
  What the caller can read afterwards: \<^verbatim>\<open>alpha()\<close>, \<^verbatim>\<open>accumulator()\<close>,
  \<^verbatim>\<open>last_steps()\<close>, \<^verbatim>\<open>step_error_caught()\<close>, the user world and the call log.
\<close>

definition observe ::
  "'w Runner \<times> 'w Env \<Rightarrow> double \<times> nanoseconds \<times> nat \<times> bool \<times> 'w \<times> call list" where
  "observe st =
     (case st of (r, env) \<Rightarrow>
        (alpha r, accumulator r, last_steps r, step_error_caught r, world env, calls env))"

definition observed ::
  "'w operation list \<Rightarrow> 'w Runner \<times> 'w Env \<Rightarrow>
     failure + (double \<times> nanoseconds \<times> nat \<times> bool \<times> 'w \<times> call list)" where
  "observed xs st = (case run xs st of Inl f \<Rightarrow> Inl f | Inr st' \<Rightarrow> Inr (observe st'))"

subsection \<open>The scenarios of the specification\<close>

text \<open>
  The user world of the scenarios counts the invocations of the step function.
  Durations are in nanoseconds: 100 ms is \<open>100000000\<close>.
\<close>

definition count_steps :: "nat OnStepFunction" where
  "count_steps d n = (Returns, n + 1)"

definition fails_first :: "nat OnStepFunction" where
  "fails_first d n = (if n = 0 then Throws else Returns, n + 1)"

definition note_error :: "nat OnErrorFunction" where
  "note_error n = (Returns, n)"

definition raise_error :: "nat OnErrorFunction" where
  "raise_error n = (Throws, n)"

definition start :: "nat Env" where
  "start = \<lparr> world = 0, calls = [] \<rparr>"

text \<open>Scenario A: step 100 ms, largest delta 250 ms, at most 8 substeps.\<close>

definition scenario_config :: Config where
  "scenario_config =
     \<lparr> step = 100000000, time_scale = 1, safety_max_delta = 250000000,
       safety_max_substeps = 8, safety_max_accumulator_overflow = 3 \<rparr>"

definition scenario_A :: "nat Runner" where
  "scenario_A = FixedTimestepRunner (Some count_steps) scenario_config 0"

text \<open>Scenario B: at most 2 substeps, and a largest delta that does not clamp.\<close>

definition scenario_B :: "nat Runner" where
  "scenario_B =
     FixedTimestepRunner (Some count_steps)
       (scenario_config\<lparr> safety_max_delta := 2000000000, safety_max_substeps := 2 \<rparr>) 0"

text \<open>Scenario C: time runs at half speed.\<close>

definition scenario_C :: "nat Runner" where
  "scenario_C =
     FixedTimestepRunner (Some count_steps)
       (scenario_config\<lparr> time_scale := 1 / 2, safety_max_delta := 1000000000 \<rparr>) 0"

text \<open>Scenario E: the step function throws on its first invocation.\<close>

definition scenario_E :: "nat Runner" where
  "scenario_E =
     set_error_function (Some note_error)
       (FixedTimestepRunner (Some fails_first) scenario_config 0)"

text \<open>
  Scenario B continued: after 1000 ms were pushed, the step is set to 10 ms and the
  runner is paused.
\<close>

definition two_steps :: "nat Env" where
  "two_steps =
     \<lparr> world = 2, calls = [Step_Call 100000000 Returns, Step_Call 100000000 Returns] \<rparr>"

definition paused_backlog :: "nat Runner" where
  "paused_backlog =
     scenario_B\<lparr> m_config := (m_config scenario_B)\<lparr> step := 10000000 \<rparr>,
                 m_accumulator := 300000000, m_paused := True,
                 m_last_delta := 1000000000, m_last_steps := 2 \<rparr>"

section \<open>Rounding to binary64\<close>

lemma round_half_even_of_int [simp]: "round_half_even (of_int n) = n"
  by (simp add: round_half_even_def)

lemma round_half_even_nonneg: "0 \<le> q \<Longrightarrow> 0 \<le> round_half_even q"
  by (auto simp: round_half_even_def Let_def)

lemma round_half_even_le:
  assumes "q \<le> of_int n"
  shows "round_half_even q \<le> n"
proof -
  from assms have f: "\<lfloor>q\<rfloor> \<le> n" by (simp add: floor_le_iff)
  show ?thesis
  proof (cases "\<lfloor>q\<rfloor> = n")
    case True
    with assms have "q - of_int \<lfloor>q\<rfloor> \<le> 0" by simp
    then have "q - of_int \<lfloor>q\<rfloor> < 1 / 2" by simp
    with True show ?thesis by (simp add: round_half_even_def Let_def)
  next
    case False
    with f have "\<lfloor>q\<rfloor> + 1 \<le> n" by simp
    then show ?thesis by (auto simp: round_half_even_def Let_def)
  qed
qed

text \<open>The exponent found by \<open>ilog2\<close> is a lower bound, which is all the proofs need.\<close>

lemma ilog2_lower:
  assumes "0 < a"
  shows "2 powi ilog2 a \<le> a"
proof -
  obtain p q where pq: "quotient_of a = (p, q)" by (cases "quotient_of a")
  then have q: "0 < q" and a: "a = of_int p / of_int q"
    by (simp_all add: quotient_of_denom_pos quotient_of_div)
  with assms have p: "0 < p" by (simp add: zero_less_divide_iff)
  let ?k = "bitlen p - bitlen q"
  show ?thesis
  proof (cases "2 powi ?k \<le> a")
    case True
    with pq show ?thesis by (simp add: ilog2_def Let_def)
  next
    case False
    from bitlen_bounds [OF p] have lp: "2 ^ nat (bitlen p - 1) \<le> p" by simp
    from bitlen_bounds [OF q] have uq: "q < 2 ^ nat (bitlen q)" by simp
    from p have bp: "1 \<le> bitlen p" by (simp add: bitlen_alt_def)
    have bq: "0 \<le> bitlen q" by (rule bitlen_nonneg)
    from lp have "(2::rat) ^ nat (bitlen p - 1) \<le> of_int p"
      by (metis of_int_le_iff of_int_numeral of_int_power)
    with bp have lp': "(2::rat) powi (bitlen p - 1) \<le> of_int p"
      by (simp add: power_int_def)
    from uq have "(of_int q :: rat) < 2 ^ nat (bitlen q)"
      by (metis of_int_less_iff of_int_numeral of_int_power)
    with bq have uq': "(of_int q :: rat) \<le> 2 powi bitlen q"
      by (simp add: power_int_def)
    have "(2::rat) powi (?k - 1) * of_int q \<le> 2 powi (?k - 1) * 2 powi bitlen q"
      using uq' by (intro mult_left_mono) simp_all
    also have "\<dots> = 2 powi (bitlen p - 1)"
      by (simp flip: power_int_add)
    also note lp'
    finally have "(2::rat) powi (?k - 1) \<le> of_int p / of_int q"
      using q by (simp add: pos_le_divide_eq)
    with False pq a show ?thesis by (simp add: ilog2_def Let_def)
  qed
qed

lemma ilog2_le:
  assumes "0 < a" and "a < 2 powi (k + 1)"
  shows "ilog2 a \<le> k"
proof (rule ccontr)
  assume "\<not> ilog2 a \<le> k"
  then have "k + 1 \<le> ilog2 a" by simp
  then have "(2::rat) powi (k + 1) \<le> 2 powi ilog2 a"
    by (intro power_int_increasing) simp_all
  also have "\<dots> \<le> a" using assms(1) by (rule ilog2_lower)
  finally show False using assms(2) by simp
qed

lemma nearest_nonneg: "0 \<le> x \<Longrightarrow> 0 \<le> nearest x"
  by (auto simp: nearest_def Let_def intro!: mult_nonneg_nonneg round_half_even_nonneg)

text \<open>
  Rounding does not pass a value of the grid: what lies below a representable \<open>v\<close>
  is rounded to at most \<open>v\<close>.
\<close>

lemma nearest_le:
  assumes x: "0 < x" and le: "x \<le> v" and v: "v < 2 powi (k + 1)"
    and grid: "\<And>e. e \<le> max (k - 52) (- 1074) \<Longrightarrow> v / 2 powi e \<in> \<int>"
  shows "nearest x \<le> v"
proof -
  let ?e = "ulp_exponent \<bar>x\<bar>"
  from x le v have "ilog2 x \<le> k" by (intro ilog2_le) simp_all
  with x have "?e \<le> max (k - 52) (- 1074)" by (simp add: ulp_exponent_def)
  from grid [OF this] obtain n where n: "v / 2 powi ?e = of_int n" by (auto elim: Ints_cases)
  from le have "\<bar>x\<bar> / 2 powi ?e \<le> v / 2 powi ?e"
    using x by (simp add: divide_right_mono)
  with n have "round_half_even (\<bar>x\<bar> / 2 powi ?e) \<le> n" by (simp add: round_half_even_le)
  then have "(of_int (round_half_even (\<bar>x\<bar> / 2 powi ?e)) :: rat) \<le> of_int n" by simp
  then have "(of_int (round_half_even (\<bar>x\<bar> / 2 powi ?e)) :: rat) * 2 powi ?e
      \<le> of_int n * 2 powi ?e"
    by (intro mult_right_mono) simp_all
  also have "\<dots> = v" using n [symmetric] by simp
  finally show ?thesis using x by (simp add: nearest_def Let_def)
qed

lemma nearest_minus: "nearest (- x) = - nearest x"
  by (simp add: nearest_def Let_def)

lemma nearest_exact:
  assumes "0 < x" and "x / 2 powi ulp_exponent x \<in> \<int>"
  shows "nearest x = x"
proof -
  from assms(2) obtain n where n: "x / 2 powi ulp_exponent x = of_int n"
    by (auto elim: Ints_cases)
  then have r: "round_half_even (x / 2 powi ulp_exponent x) = n" by simp
  from n [symmetric] have "of_int n * 2 powi ulp_exponent x = x" by simp
  with r assms(1) show ?thesis by (simp add: nearest_def Let_def)
qed

lemma int_on_grid:
  assumes "e \<le> 0"
  shows "(of_int n :: rat) / 2 powi e \<in> \<int>"
proof -
  from assms have "(2::rat) powi (- e) = 2 ^ nat (- e)" by (simp add: power_int_def)
  moreover have "(2::rat) powi e = 1 / 2 powi (- e)"
    using power_int_minus_divide [of "2::rat" "- e"] by simp
  ultimately have "(of_int n :: rat) / 2 powi e = of_int (n * 2 ^ nat (- e))" by simp
  then show ?thesis by (simp only: Ints_of_int)
qed

lemma power_on_grid:
  assumes "e \<le> j"
  shows "(of_int n * 2 powi j :: rat) / 2 powi e \<in> \<int>"
proof -
  have "(2::rat) powi j = 2 powi (j - e) * 2 powi e" by (simp flip: power_int_add)
  moreover from assms have "(2::rat) powi (j - e) = 2 ^ nat (j - e)" by (simp add: power_int_def)
  ultimately have "(of_int n * 2 powi j :: rat) / 2 powi e = of_int (n * 2 ^ nat (j - e))"
    by simp
  then show ?thesis by (simp only: Ints_of_int)
qed

text \<open>
  A non-negative value below a representable \<open>v\<close> has a finite \<^verbatim>\<open>double\<close> between
  0 and \<open>v\<close>.
\<close>

lemma to_double_le:
  assumes x: "0 \<le> x" and le: "x \<le> v" and v: "v < 2 powi (k + 1)" and k: "k < 1024"
    and grid: "\<And>e. e \<le> max (k - 52) (- 1074) \<Longrightarrow> v / 2 powi e \<in> \<int>"
  shows "\<exists>y. to_double x = Finite y \<and> 0 \<le> y \<and> y \<le> v"
proof (cases "x = 0")
  case True
  with le show ?thesis by (simp add: to_double_def nearest_def)
next
  case False
  with x have pos: "0 < x" by simp
  from pos le v grid have up: "nearest x \<le> v" by (rule nearest_le)
  from x have low: "0 \<le> nearest x" by (rule nearest_nonneg)
  from k have "(2::rat) powi (k + 1) \<le> 2 powi 1024" by (intro power_int_increasing) simp_all
  with up v low have "\<not> 2 powi 1024 \<le> \<bar>nearest x\<bar>" by simp
  with up low show ?thesis by (simp add: to_double_def Let_def)
qed

text \<open>Integers below \<open>2 ^ 53\<close> in magnitude are converted exactly.\<close>

lemma nearest_of_int:
  assumes "\<bar>n\<bar> < 2 ^ 53"
  shows "nearest (of_int n) = of_int n"
proof -
  have pos: "nearest (of_int m) = of_int m" if "0 < m" "m < 2 ^ 53" for m :: int
  proof -
    from that(2) have "(of_int m :: rat) < 2 ^ 53"
      by (metis of_int_less_iff of_int_numeral of_int_power)
    then have "(of_int m :: rat) < 2 powi (52 + 1)" by simp
    with that(1) have "ilog2 (of_int m) \<le> 52" by (intro ilog2_le) simp_all
    then have "ulp_exponent (of_int m) \<le> 0" by (simp add: ulp_exponent_def)
    then have "(of_int m :: rat) / 2 powi ulp_exponent (of_int m) \<in> \<int>" by (rule int_on_grid)
    with that(1) show ?thesis by (intro nearest_exact) simp_all
  qed
  consider "n = 0" | "0 < n" | "n < 0" by linarith
  then show ?thesis
  proof cases
    case 1
    then show ?thesis by (simp add: nearest_def)
  next
    case 2
    with assms show ?thesis by (intro pos) simp_all
  next
    case 3
    with assms have "nearest (of_int (- n)) = of_int (- n)" by (intro pos) simp_all
    then show ?thesis by (simp add: nearest_minus)
  qed
qed

section \<open>The step loop\<close>

lemma try_step_frame:
  assumes "try_step r env = Inr (r1, env1)"
  shows "m_config r1 = m_config r"
    and "m_accumulator r1 = m_accumulator r"
    and "m_on_update_function r1 = m_on_update_function r"
    and "m_on_error_function r1 = m_on_error_function r"
    and "m_paused r1 = m_paused r"
    and "m_last r1 = m_last r"
    and "m_last_delta r1 = m_last_delta r"
    and "m_last_steps r1 = m_last_steps r"
  using assms
  by (auto simp: try_step_def Let_def split: prod.splits outcome.splits)

lemma step_loop_exit: "\<not> loop_cond r k \<Longrightarrow> step_loop r env k = Inr (r, env, k)"
  by (subst step_loop.simps) (auto simp: loop_cond_def)

lemma step_loop_iter:
  assumes "loop_cond r k" and "step_loop r env k = Inr res"
  obtains r1 env1 where "try_step r env = Inr (r1, env1)"
    and "int64_range (m_accumulator r - step (m_config r))"
    and "step_loop (r1\<lparr> m_accumulator := m_accumulator r - step (m_config r) \<rparr>) env1 (Suc k)
           = Inr res"
proof -
  from assms obtain r1 env1 acc where
    ts: "try_step r env = Inr (r1, env1)" and
    ck: "checked (m_accumulator r1 - step (m_config r1)) = Inr acc" and
    rec: "step_loop (r1\<lparr> m_accumulator := acc \<rparr>) env1 (k + 1) = Inr res"
    by (simp add: step_loop.simps [of r env k] loop_cond_def split: sum.splits prod.splits)
  from ck try_step_frame(1,2) [OF ts]
  have "int64_range (m_accumulator r - step (m_config r))"
    and "acc = m_accumulator r - step (m_config r)"
    by (auto simp: checked_def split: if_splits)
  with ts rec that show thesis by simp
qed

lemma step_loop_rule [consumes 1, case_names exit iter]:
  assumes run: "step_loop r env k = Inr (r', env', k')"
    and exit: "\<And>r env k. \<not> loop_cond r k \<Longrightarrow> P r env k r env k"
    and iter: "\<And>r env k r1 env1 r' env' k'.
        loop_cond r k \<Longrightarrow> try_step r env = Inr (r1, env1) \<Longrightarrow>
        int64_range (m_accumulator r - step (m_config r)) \<Longrightarrow>
        step_loop (r1\<lparr> m_accumulator := m_accumulator r - step (m_config r) \<rparr>) env1 (Suc k)
          = Inr (r', env', k') \<Longrightarrow>
        P (r1\<lparr> m_accumulator := m_accumulator r - step (m_config r) \<rparr>) env1 (Suc k) r' env' k' \<Longrightarrow>
        P r env k r' env' k'"
  shows "P r env k r' env' k'"
  using run
proof (induction r env k rule: step_loop.induct)
  case (1 r env steps)
  show ?case
  proof (cases "loop_cond r steps")
    case False
    with "1.prems" exit [OF False, of env] show ?thesis
      by (simp add: step_loop_exit)
  next
    case True
    from True "1.prems" obtain r1 env1 where
      ts: "try_step r env = Inr (r1, env1)" and
      rg: "int64_range (m_accumulator r - step (m_config r))" and
      rec: "step_loop (r1\<lparr> m_accumulator := m_accumulator r - step (m_config r) \<rparr>) env1
              (Suc steps) = Inr (r', env', k')"
      by (rule step_loop_iter)
    have ck: "checked (m_accumulator r1 - step (m_config r1))
                = Inr (m_accumulator r - step (m_config r))"
      using rg try_step_frame(1,2) [OF ts] by (simp add: checked_def)
    from True have c: "step (m_config r) \<le> m_accumulator r \<and>
        steps < safety_max_substeps (m_config r)"
      by (simp add: loop_cond_def)
    have "P (r1\<lparr> m_accumulator := m_accumulator r - step (m_config r) \<rparr>) env1 (Suc steps)
            r' env' k'"
      using "1.IH" [OF c ts refl ck] rec by simp
    with True ts rg rec show ?thesis by (rule iter)
  qed
qed

lemma step_loop_frame:
  assumes "step_loop r env k = Inr (r', env', k')"
  shows "m_config r' = m_config r \<and> m_on_update_function r' = m_on_update_function r \<and>
     m_on_error_function r' = m_on_error_function r \<and> m_paused r' = m_paused r \<and>
     m_last r' = m_last r \<and> m_last_delta r' = m_last_delta r \<and>
     m_last_steps r' = m_last_steps r"
  using assms
proof (induction rule: step_loop_rule)
  case (exit r env k)
  show ?case by simp
next
  case (iter r env k r1 env1 r' env' k')
  then show ?case using try_step_frame [of r env r1 env1] by simp
qed

lemma step_loop_steps:
  assumes "step_loop r env k = Inr (r', env', k')"
  shows "k \<le> k' \<and> (k \<le> safety_max_substeps (m_config r) \<longrightarrow>
                      k' \<le> safety_max_substeps (m_config r))"
  using assms
proof (induction rule: step_loop_rule)
  case (exit r env k)
  show ?case by simp
next
  case (iter r env k r1 env1 r' env' k')
  then show ?case using try_step_frame(1) [of r env r1 env1]
    by (auto simp: loop_cond_def)
qed

lemma step_loop_accumulator:
  assumes "step_loop r env k = Inr (r', env', k')"
  shows "m_accumulator r' = m_accumulator r - int (k' - k) * step (m_config r)"
  using assms
proof (induction rule: step_loop_rule)
  case (exit r env k)
  show ?case by simp
next
  case (iter r env k r1 env1 r' env' k')
  from iter.hyps(4) have "Suc k \<le> k'" using step_loop_steps by blast
  then have "int (k' - k) = int (k' - Suc k) + 1" by simp
  with iter show ?case using try_step_frame(1) [of r env r1 env1]
    by (simp add: algebra_simps)
qed

lemma step_loop_stops:
  assumes "step_loop r env k = Inr (r', env', k')"
  shows "\<not> loop_cond r' k'"
  using assms
  by (induction rule: step_loop_rule) simp_all

lemma step_loop_nonneg:
  assumes "step_loop r env k = Inr (r', env', k')"
  shows "(0 \<le> m_accumulator r \<or> k < k') \<longrightarrow> 0 \<le> m_accumulator r'"
  using assms
proof (induction rule: step_loop_rule)
  case (exit r env k)
  show ?case by simp
next
  case (iter r env k r1 env1 r' env' k')
  then show ?case by (simp add: loop_cond_def)
qed

lemma try_step_log:
  assumes "try_step r env = Inr (r1, env1)"
  shows "\<exists>evs. calls env1 = calls env @ evs \<and> log_ok r (m_step_error_caught r1) 1 evs"
  using assms
  by (auto simp: try_step_def call_step_def call_error_def Let_def log_ok_def
      step_calls_def error_calls_def thrown_steps_def
      split: prod.splits outcome.splits option.splits)

lemma log_ok_append:
  assumes "log_ok r c1 n evs1" and "log_ok r1 c2 m evs2"
    and "m_on_update_function r1 = m_on_update_function r"
    and "m_on_error_function r1 = m_on_error_function r"
    and "m_step_error_caught r1 = c1"
  shows "log_ok r c2 (n + m) (evs1 @ evs2)"
  using assms by (auto simp: log_ok_def step_calls_def error_calls_def thrown_steps_def)

lemma step_loop_log:
  assumes "step_loop r env k = Inr (r', env', k')"
  shows "\<exists>evs. calls env' = calls env @ evs \<and> log_ok r (m_step_error_caught r') (k' - k) evs"
  using assms
proof (induction rule: step_loop_rule)
  case (exit r env k)
  show ?case by (simp add: log_ok_def step_calls_def error_calls_def thrown_steps_def)
next
  case (iter r env k r1 env1 r' env' k')
  let ?r2 = "r1\<lparr> m_accumulator := m_accumulator r - step (m_config r) \<rparr>"
  from try_step_log [OF iter.hyps(2)] obtain evs1 where
    e1: "calls env1 = calls env @ evs1" and l1: "log_ok r (m_step_error_caught r1) 1 evs1"
    by blast
  from iter.IH obtain evs2 where
    e2: "calls env' = calls env1 @ evs2" and
    l2: "log_ok ?r2 (m_step_error_caught r') (k' - Suc k) evs2"
    by blast
  from iter.hyps(4) have "Suc k \<le> k'" using step_loop_steps by blast
  then have n: "1 + (k' - Suc k) = k' - k" by simp
  have "log_ok r (m_step_error_caught r') (1 + (k' - Suc k)) (evs1 @ evs2)"
    using try_step_frame(3,4) [OF iter.hyps(2)] by (intro log_ok_append [OF l1 l2]) simp_all
  with e1 e2 n show ?case by simp
qed

lemma try_step_no_terminate:
  "error_function_returns r \<Longrightarrow> \<exists>r1 env1. try_step r env = Inr (r1, env1)"
  by (auto simp: try_step_def call_error_def error_function_returns_def Let_def
      split: prod.splits outcome.splits option.splits dest: fstI)

lemma try_step_error_function_returns:
  "try_step r env = Inr (r1, env1) \<Longrightarrow> error_function_returns r1 = error_function_returns r"
  using try_step_frame(4) [of r env r1 env1] by (simp add: error_function_returns_def)

lemma step_loop_no_terminate:
  "error_function_returns r \<Longrightarrow> step_loop r env k \<noteq> Inl Terminate"
proof (induction r env k rule: step_loop.induct)
  case (1 r env steps)
  show ?case
  proof (cases "loop_cond r steps")
    case False
    then show ?thesis by (simp add: step_loop_exit)
  next
    case True
    from try_step_no_terminate [OF "1.prems"] obtain r1 env1 where
      ts: "try_step r env = Inr (r1, env1)" by blast
    from True have c: "step (m_config r) \<le> m_accumulator r \<and>
        steps < safety_max_substeps (m_config r)"
      by (simp add: loop_cond_def)
    have safe: "error_function_returns (r1\<lparr> m_accumulator := acc \<rparr>)" for acc
      using "1.prems" try_step_error_function_returns [OF ts]
      by (simp add: error_function_returns_def)
    show ?thesis
    proof (cases "checked (m_accumulator r1 - step (m_config r1))")
      case (Inl f)
      then have "f = Undefined_Behaviour" by (auto simp: checked_def split: if_splits)
      with Inl ts c show ?thesis by (simp add: step_loop.simps [of r env steps])
    next
      case (Inr acc)
      from "1.IH" [OF c ts refl Inr safe] Inr ts c show ?thesis
        by (simp add: step_loop.simps [of r env steps])
    qed
  qed
qed

lemma step_loop_defined:
  "error_function_returns r \<Longrightarrow> int64_range (m_accumulator r) \<Longrightarrow>
   0 \<le> step (m_config r) \<Longrightarrow> \<exists>res. step_loop r env k = Inr res"
proof (induction r env k rule: step_loop.induct)
  case (1 r env steps)
  show ?case
  proof (cases "loop_cond r steps")
    case False
    then show ?thesis by (simp add: step_loop_exit)
  next
    case True
    from try_step_no_terminate [OF "1.prems"(1)] obtain r1 env1 where
      ts: "try_step r env = Inr (r1, env1)" by blast
    from True have c: "step (m_config r) \<le> m_accumulator r \<and>
        steps < safety_max_substeps (m_config r)"
      by (simp add: loop_cond_def)
    let ?acc = "m_accumulator r - step (m_config r)"
    have rg: "int64_range ?acc"
      using c "1.prems"(2,3) by (simp add: int64_range_def)
    then have ck: "checked (m_accumulator r1 - step (m_config r1)) = Inr ?acc"
      using try_step_frame(1,2) [OF ts] by (simp add: checked_def)
    have "\<exists>res. step_loop (r1\<lparr> m_accumulator := ?acc \<rparr>) env1 (steps + 1) = Inr res"
      using "1.IH" [OF c ts refl ck] "1.prems" rg try_step_frame(1) [OF ts]
        try_step_error_function_returns [OF ts]
      by (simp add: error_function_returns_def)
    with ck ts c show ?thesis by (simp add: step_loop.simps [of r env steps])
  qed
qed

section \<open>The accumulator ceiling\<close>

lemma to_int64_mod: "to_int64 (x mod 2 ^ 64) = to_int64 x"
  by (simp add: to_int64_def mod_add_left_eq)

lemma to_int64_id: "int64_range x \<Longrightarrow> to_int64 x = x"
  by (simp add: to_int64_def int64_range_def)

lemma to_int64_le: "0 \<le> x \<Longrightarrow> to_int64 x \<le> x"
proof (cases "int64_range x")
  case True
  then show ?thesis by (simp add: to_int64_id)
next
  case False
  assume "0 \<le> x"
  with False have "2 ^ 63 \<le> x" by (simp add: int64_range_def)
  moreover have "to_int64 x < 2 ^ 63"
    by (simp add: to_int64_def)
  ultimately show ?thesis by linarith
qed

lemma max_acc_to_int64:
  "max_acc cfg = to_int64 (step cfg * int (safety_max_accumulator_overflow cfg))"
proof -
  have "max_acc cfg
          = to_int64 ((step cfg * int (safety_max_accumulator_overflow cfg)) mod 2 ^ 64)"
    unfolding max_acc_def by (simp only: mod_mult_left_eq)
  then show ?thesis by (simp only: to_int64_mod)
qed

lemma max_acc_exact:
  "int64_range (step cfg * int (safety_max_accumulator_overflow cfg)) \<Longrightarrow>
     max_acc cfg = step cfg * int (safety_max_accumulator_overflow cfg)"
  by (simp only: max_acc_to_int64 to_int64_id)

lemma max_acc_le:
  "0 \<le> step cfg \<Longrightarrow> max_acc cfg \<le> step cfg * int (safety_max_accumulator_overflow cfg)"
  unfolding max_acc_to_int64 by (rule to_int64_le) simp

section \<open>One call of advance\<close>

lemma scale_dt_nonneg:
  assumes "scale_dt cfg dt = Inr d" and "0 \<le> dt" and "0 \<le> time_scale cfg"
  shows "0 \<le> d"
proof (cases "time_scale cfg = 1")
  case True
  with assms(1,2) show ?thesis by (simp add: scale_dt_def)
next
  case False
  have "0 \<le> nearest (nearest (of_int dt) * time_scale cfg)"
    using assms(2,3) by (intro nearest_nonneg mult_nonneg_nonneg) simp_all
  moreover from False assms(1) obtain p where
    "to_double (nearest (of_int dt) * time_scale cfg) = Finite p" and "d = duration_cast p"
    by (auto simp: scale_dt_def checked_def split: double.splits if_splits)
  ultimately have "0 \<le> p" and "d = duration_cast p"
    by (auto simp: to_double_def Let_def split: if_splits)
  then show ?thesis by (simp add: duration_cast_def)
qed

lemma scale_dt_no_terminate: "scale_dt cfg dt \<noteq> Inl Terminate"
  by (auto simp: scale_dt_def checked_def split: double.splits)

lemma alpha_frame:
  "m_accumulator r1 = m_accumulator r \<Longrightarrow> m_config r1 = m_config r \<Longrightarrow> alpha r1 = alpha r"
  by (simp add: alpha_def)

lemma advance_paused:
  "m_paused r \<Longrightarrow>
     advance r e env = Inr (alpha r, r\<lparr> m_last_delta := 0, m_last_steps := 0 \<rparr>, env)"
  by (simp add: advance_def Let_def alpha_def)

lemma advance_running:
  assumes "\<not> m_paused r" and "advance r e env = Inr (a, r', env')"
  obtains dt r2 steps where
    "scale_dt (m_config r) (min e (safety_max_delta (m_config r))) = Inr dt"
    and "int64_range (m_accumulator r + dt)"
    and "step_loop (r\<lparr> m_step_error_caught := False, m_last_delta := e,
                        m_accumulator := m_accumulator r + dt \<rparr>) env 0
           = Inr (r2, env', steps)"
    and "r' = r2\<lparr> m_last_steps := steps,
                  m_accumulator := min (m_accumulator r2) (max_acc (m_config r)) \<rparr>"
    and "a = alpha r'"
proof -
  have m: "(if safety_max_delta (m_config r) < e then safety_max_delta (m_config r) else e)
             = min e (safety_max_delta (m_config r))"
    by (simp add: min_def)
  from assms obtain dt acc r2 steps where
    sc: "scale_dt (m_config r) (min e (safety_max_delta (m_config r))) = Inr dt" and
    ck: "checked (m_accumulator r + dt) = Inr acc" and
    lp: "step_loop (r\<lparr> m_step_error_caught := False, m_last_delta := e,
                        m_accumulator := acc \<rparr>) env 0 = Inr (r2, env', steps)" and
    res: "r' = (if max_acc (m_config r2) < m_accumulator r2
                then r2\<lparr> m_last_steps := steps, m_accumulator := max_acc (m_config r2) \<rparr>
                else r2\<lparr> m_last_steps := steps \<rparr>)" and
    al: "a = alpha r'"
    by (auto simp: advance_def Let_def m split: sum.splits prod.splits if_splits)
  from ck have acc: "acc = m_accumulator r + dt" and rg: "int64_range (m_accumulator r + dt)"
    by (auto simp: checked_def split: if_splits)
  from step_loop_frame [OF lp] have cfg: "m_config r2 = m_config r" by simp
  have "r' = r2\<lparr> m_last_steps := steps,
                  m_accumulator := min (m_accumulator r2) (max_acc (m_config r)) \<rparr>"
    using res cfg by (auto simp: min_def)
  with sc rg lp acc al that show thesis by simp
qed

text \<open>What a call on a running runner leaves behind.\<close>

lemma advance_running_facts:
  assumes "\<not> m_paused r" and "advance r e env = Inr (a, r', env')"
  obtains dt evs where
    "scale_dt (m_config r) (min e (safety_max_delta (m_config r))) = Inr dt"
    and "int64_range (m_accumulator r + dt)"
    and "m_accumulator r' =
           min (m_accumulator r + dt - int (m_last_steps r') * step (m_config r))
               (max_acc (m_config r))"
    and "m_last_steps r' < safety_max_substeps (m_config r) \<Longrightarrow>
           m_accumulator r + dt - int (m_last_steps r') * step (m_config r) < step (m_config r)"
    and "0 \<le> m_accumulator r + dt \<or> 0 < m_last_steps r' \<Longrightarrow>
           0 \<le> m_accumulator r + dt - int (m_last_steps r') * step (m_config r)"
    and "m_last_steps r' \<le> safety_max_substeps (m_config r)"
    and "calls env' = calls env @ evs"
    and "log_ok (r\<lparr> m_step_error_caught := False \<rparr>) (m_step_error_caught r')
           (m_last_steps r') evs"
proof -
  from assms obtain dt r2 steps where
    sc: "scale_dt (m_config r) (min e (safety_max_delta (m_config r))) = Inr dt" and
    rg: "int64_range (m_accumulator r + dt)" and
    lp: "step_loop (r\<lparr> m_step_error_caught := False, m_last_delta := e,
                        m_accumulator := m_accumulator r + dt \<rparr>) env 0
           = Inr (r2, env', steps)" and
    res: "r' = r2\<lparr> m_last_steps := steps,
                  m_accumulator := min (m_accumulator r2) (max_acc (m_config r)) \<rparr>"
    by (rule advance_running)
  let ?left = "m_accumulator r + dt - int steps * step (m_config r)"
  from res have st: "m_last_steps r' = steps"
    and acc': "m_accumulator r' = min (m_accumulator r2) (max_acc (m_config r))"
    and flag: "m_step_error_caught r' = m_step_error_caught r2"
    by simp_all
  from step_loop_accumulator [OF lp] have a2: "m_accumulator r2 = ?left" by simp
  from step_loop_frame [OF lp] have cfg: "m_config r2 = m_config r" by simp
  from step_loop_steps [OF lp] have b: "steps \<le> safety_max_substeps (m_config r)"
    by simp
  from step_loop_stops [OF lp] a2 cfg
  have stop: "steps < safety_max_substeps (m_config r) \<Longrightarrow> ?left < step (m_config r)"
    by (auto simp: loop_cond_def)
  from step_loop_nonneg [OF lp] a2
  have nn: "0 \<le> m_accumulator r + dt \<or> 0 < steps \<Longrightarrow> 0 \<le> ?left"
    by simp
  from step_loop_log [OF lp] flag obtain evs where
    ev: "calls env' = calls env @ evs" and
    lg: "log_ok (r\<lparr> m_step_error_caught := False \<rparr>) (m_step_error_caught r') steps evs"
    by (auto simp: log_ok_def)
  show thesis
    using sc rg acc' a2 stop nn b ev lg unfolding st [symmetric] by (intro that) simp_all
qed

lemma advance_frame:
  assumes "advance r e env = Inr (a, r', env')"
  shows "m_config r' = m_config r"
    and "m_on_update_function r' = m_on_update_function r"
    and "m_on_error_function r' = m_on_error_function r"
    and "m_paused r' = m_paused r"
    and "m_last r' = m_last r"
    and "a = alpha r'"
proof -
  have "m_config r' = m_config r \<and> m_on_update_function r' = m_on_update_function r \<and>
        m_on_error_function r' = m_on_error_function r \<and> m_paused r' = m_paused r \<and>
        m_last r' = m_last r \<and> a = alpha r'"
  proof (cases "m_paused r")
    case True
    with assms show ?thesis by (auto simp: advance_paused alpha_def)
  next
    case False
    from False assms obtain dt r2 steps where
      lp: "step_loop (r\<lparr> m_step_error_caught := False, m_last_delta := e,
                        m_accumulator := m_accumulator r + dt \<rparr>) env 0
           = Inr (r2, env', steps)" and
      res: "r' = r2\<lparr> m_last_steps := steps,
                  m_accumulator := min (m_accumulator r2) (max_acc (m_config r)) \<rparr>" and
      al: "a = alpha r'"
      by (rule advance_running)
    from step_loop_frame [OF lp] res al show ?thesis by simp
  qed
  then show "m_config r' = m_config r"
    and "m_on_update_function r' = m_on_update_function r"
    and "m_on_error_function r' = m_on_error_function r"
    and "m_paused r' = m_paused r"
    and "m_last r' = m_last r"
    and "a = alpha r'"
    by simp_all
qed

lemma new_calls_append: "calls env' = calls env @ evs \<Longrightarrow> new_calls env env' = evs"
  by (simp add: new_calls_def)

lemma new_calls_same: "new_calls env env = []"
  by (simp add: new_calls_def)

lemma advance_log:
  assumes "\<not> m_paused r" and "advance r e env = Inr (a, r', env')"
  shows "calls env' = calls env @ new_calls env env'"
    and "step_calls (new_calls env env')
           = (if m_on_update_function r = None then 0 else m_last_steps r')"
    and "error_calls (new_calls env env')
           = (if m_on_error_function r = None then 0 else thrown_steps (new_calls env env'))"
    and "m_step_error_caught r' \<longleftrightarrow> 0 < thrown_steps (new_calls env env')"
proof -
  from assms obtain evs where
    ev: "calls env' = calls env @ evs" and
    lg: "log_ok (r\<lparr> m_step_error_caught := False \<rparr>) (m_step_error_caught r')
           (m_last_steps r') evs"
    by (rule advance_running_facts)
  from ev have n: "new_calls env env' = evs" by (rule new_calls_append)
  from ev n show "calls env' = calls env @ new_calls env env'" by simp
  from lg n show "step_calls (new_calls env env')
           = (if m_on_update_function r = None then 0 else m_last_steps r')"
    and "error_calls (new_calls env env')
           = (if m_on_error_function r = None then 0 else thrown_steps (new_calls env env'))"
    and "m_step_error_caught r' \<longleftrightarrow> 0 < thrown_steps (new_calls env env')"
    by (simp_all add: log_ok_def)
qed

lemma div_bound_aux:
  fixes a s :: int
  assumes "a < (int n + 1) * s" and "0 < s"
  shows "a div s < int n + 1"
proof -
  have e: "s * (a div s) = a - a mod s" by (simp add: minus_mod_eq_mult_div)
  have m: "0 \<le> a mod s" using assms(2) by simp
  have "a < s * (int n + 1)" using assms(1) by (simp add: mult.commute)
  with e m have "s * (a div s) < s * (int n + 1)" by linarith
  with assms(2) show ?thesis by (simp only: mult_less_cancel_left_pos)
qed

lemma steps_closed_form:
  fixes a s :: int and n m :: nat
  assumes s: "0 < s" and le: "n \<le> m"
    and stop: "n < m \<Longrightarrow> a - int n * s < s"
    and ran: "0 < n \<Longrightarrow> 0 \<le> a - int n * s"
  shows "n = min m (nat (a div s))"
proof -
  have up: "int n \<le> a div s" if "0 < n"
  proof -
    from ran [OF that] have "int n * s \<le> a" by simp
    then have "(int n * s) div s \<le> a div s" by (rule zdiv_mono1) (rule s)
    with s show ?thesis by simp
  qed
  have low: "a div s < int n + 1" if "n < m"
  proof -
    from stop [OF that] have "a < (int n + 1) * s" by (simp add: algebra_simps)
    then show ?thesis using s by (rule div_bound_aux)
  qed
  show ?thesis
  proof (cases "n < m")
    case True
    from low [OF True] have "nat (a div s) \<le> n" by simp
    moreover have "n \<le> nat (a div s)" using up by (cases "n = 0") simp_all
    ultimately show ?thesis using True by simp
  next
    case False
    with le have "n = m" by simp
    moreover have "n \<le> nat (a div s)" using up by (cases "n = 0") simp_all
    ultimately show ?thesis by simp
  qed
qed

lemma advance_steps_closed_form:
  assumes "\<not> m_paused r" and "advance r e env = Inr (a, r', env')"
    and "0 < step (m_config r)"
    and "scale_dt (m_config r) (min e (safety_max_delta (m_config r))) = Inr dt"
  shows "m_last_steps r'
           = min (safety_max_substeps (m_config r))
                 (nat ((m_accumulator r + dt) div step (m_config r)))"
proof -
  from assms(1,2) show ?thesis
  proof (rule advance_running_facts)
    fix dt' evs
    assume "scale_dt (m_config r) (min e (safety_max_delta (m_config r))) = Inr dt'"
      and stop: "m_last_steps r' < safety_max_substeps (m_config r) \<Longrightarrow>
           m_accumulator r + dt' - int (m_last_steps r') * step (m_config r) < step (m_config r)"
      and ran: "0 \<le> m_accumulator r + dt' \<or> 0 < m_last_steps r' \<Longrightarrow>
           0 \<le> m_accumulator r + dt' - int (m_last_steps r') * step (m_config r)"
      and le: "m_last_steps r' \<le> safety_max_substeps (m_config r)"
    with assms(4) have "dt' = dt" by simp
    with stop ran le assms(3) show ?thesis
      by (intro steps_closed_form) simp_all
  qed
qed

lemma advance_no_terminate:
  assumes "error_function_returns r"
  shows "advance r e env \<noteq> Inl Terminate"
proof (cases "m_paused r")
  case True
  then show ?thesis by (simp add: advance_paused)
next
  case False
  have safe: "error_function_returns
      (r\<lparr> m_step_error_caught := False, m_last_delta := e, m_accumulator := acc \<rparr>)" for acc
    using assms by (simp add: error_function_returns_def)
  have lp: "step_loop (r\<lparr> m_step_error_caught := False, m_last_delta := e,
      m_accumulator := acc \<rparr>) env 0 \<noteq> Inl Terminate" for acc
    using safe by (rule step_loop_no_terminate)
  show ?thesis
  proof
    assume "advance r e env = Inl Terminate"
    with False lp show False
      by (auto simp: advance_def Let_def checked_def scale_dt_no_terminate
          split: sum.splits if_splits)
  qed
qed

lemma advance_running_eq:
  assumes "\<not> m_paused r"
  shows "advance r e env =
    (case scale_dt (m_config r) (min e (safety_max_delta (m_config r))) of
       Inl f \<Rightarrow> Inl f
     | Inr dt \<Rightarrow>
         (case checked (m_accumulator r + dt) of
            Inl f \<Rightarrow> Inl f
          | Inr acc \<Rightarrow>
              (case step_loop (r\<lparr> m_step_error_caught := False, m_last_delta := e,
                                   m_accumulator := acc \<rparr>) env 0 of
                 Inl f \<Rightarrow> Inl f
               | Inr (r2, env2, steps) \<Rightarrow>
                   (let r4 = r2\<lparr> m_last_steps := steps,
                                  m_accumulator :=
                                    min (m_accumulator r2) (max_acc (m_config r2)) \<rparr>
                    in Inr (alpha r4, r4, env2)))))"
proof (cases "safety_max_delta (m_config r) < e")
  case True
  then have "min e (safety_max_delta (m_config r)) = safety_max_delta (m_config r)" by simp
  with True assms show ?thesis
    by (auto simp: advance_def Let_def min_def split: sum.splits prod.splits)
next
  case False
  then have "min e (safety_max_delta (m_config r)) = e" by simp
  with False assms show ?thesis
    by (auto simp: advance_def Let_def min_def split: sum.splits prod.splits)
qed

lemma advance_defined:
  assumes "error_function_returns r" and "0 \<le> step (m_config r)"
    and "scale_dt (m_config r) (min e (safety_max_delta (m_config r))) = Inr dt"
    and "int64_range (m_accumulator r + dt)"
  shows "\<exists>a r' env'. advance r e env = Inr (a, r', env')"
proof (cases "m_paused r")
  case True
  then show ?thesis by (simp add: advance_paused)
next
  case False
  let ?r1 = "r\<lparr> m_step_error_caught := False, m_last_delta := e,
                 m_accumulator := m_accumulator r + dt \<rparr>"
  have "\<exists>res. step_loop ?r1 env 0 = Inr res"
    using assms by (intro step_loop_defined) (simp_all add: error_function_returns_def)
  then obtain r2 env2 steps where "step_loop ?r1 env 0 = Inr (r2, env2, steps)"
    by (metis prod_cases3)
  with assms(3,4) show ?thesis
    by (simp add: advance_running_eq [OF False] Let_def checked_def)
qed

lemma try_step_last_delta:
  "try_step (r\<lparr> m_last_delta := d \<rparr>) env =
     (case try_step r env of
        Inl f \<Rightarrow> Inl f
      | Inr (r1, env1) \<Rightarrow> Inr (r1\<lparr> m_last_delta := d \<rparr>, env1))"
  by (simp add: try_step_def call_step_def call_error_def Let_def
      split: option.splits prod.splits outcome.splits)

lemma step_loop_last_delta:
  "step_loop (r\<lparr> m_last_delta := d \<rparr>) env k =
     (case step_loop r env k of
        Inl f \<Rightarrow> Inl f
      | Inr (r', env', k') \<Rightarrow> Inr (r'\<lparr> m_last_delta := d \<rparr>, env', k'))"
proof (induction r env k rule: step_loop.induct)
  case (1 r env steps)
  show ?case
  proof (cases "loop_cond r steps")
    case False
    then have "\<not> loop_cond (r\<lparr> m_last_delta := d \<rparr>) steps" by (simp add: loop_cond_def)
    with False show ?thesis by (simp add: step_loop_exit)
  next
    case True
    then have c: "step (m_config r) \<le> m_accumulator r \<and>
        steps < safety_max_substeps (m_config r)"
      by (simp add: loop_cond_def)
    show ?thesis
    proof (cases "try_step r env")
      case (Inl f)
      with c show ?thesis
        by (simp add: step_loop.simps [of r env steps]
            step_loop.simps [of "r\<lparr> m_last_delta := d \<rparr>" env steps] try_step_last_delta)
    next
      case (Inr p)
      then obtain r1 env1 where ts: "try_step r env = Inr (r1, env1)" by (cases p) simp
      show ?thesis
      proof (cases "checked (m_accumulator r1 - step (m_config r1))")
        case (Inl f)
        with c ts show ?thesis
          by (simp add: step_loop.simps [of r env steps]
              step_loop.simps [of "r\<lparr> m_last_delta := d \<rparr>" env steps] try_step_last_delta)
      next
        case (Inr acc)
        have eq: "r1\<lparr> m_last_delta := d, m_accumulator := acc \<rparr>
            = r1\<lparr> m_accumulator := acc \<rparr>\<lparr> m_last_delta := d \<rparr>"
          by simp
        have "step_loop (r1\<lparr> m_last_delta := d, m_accumulator := acc \<rparr>) env1 (steps + 1) =
          (case step_loop (r1\<lparr> m_accumulator := acc \<rparr>) env1 (steps + 1) of
             Inl f \<Rightarrow> Inl f
           | Inr (r', env', k') \<Rightarrow> Inr (r'\<lparr> m_last_delta := d \<rparr>, env', k'))"
          unfolding eq by (rule "1.IH" [OF c ts refl Inr])
        with c ts Inr show ?thesis
          by (simp add: step_loop.simps [of r env steps]
              step_loop.simps [of "r\<lparr> m_last_delta := d \<rparr>" env steps] try_step_last_delta)
      qed
    qed
  qed
qed

lemma advance_clamped:
  assumes "safety_max_delta (m_config r) < e"
  shows "advance r e env =
     (case advance r (safety_max_delta (m_config r)) env of
        Inl f \<Rightarrow> Inl f
      | Inr (a, r', env') \<Rightarrow>
          Inr (a, r'\<lparr> m_last_delta := (if m_paused r then 0 else e) \<rparr>, env'))"
proof (cases "m_paused r")
  case True
  then show ?thesis by (simp add: advance_paused)
next
  case False
  let ?md = "safety_max_delta (m_config r)"
  have m: "min e ?md = ?md" "min ?md ?md = ?md" using assms by simp_all
  let ?R = "\<lambda>acc. r\<lparr> m_step_error_caught := False, m_accumulator := acc \<rparr>"
  have v: "r\<lparr> m_step_error_caught := False, m_last_delta := d, m_accumulator := acc \<rparr>
      = (?R acc)\<lparr> m_last_delta := d \<rparr>" for acc d
    by simp
  show ?thesis
  proof (cases "scale_dt (m_config r) ?md")
    case (Inl f)
    with False show ?thesis by (simp add: advance_running_eq m)
  next
    case dt: (Inr dt)
    show ?thesis
    proof (cases "checked (m_accumulator r + dt)")
      case (Inl f)
      with False dt show ?thesis by (simp add: advance_running_eq m)
    next
      case acc: (Inr acc)
      show ?thesis
      proof (cases "step_loop (?R acc) env 0")
        case (Inl f)
        with False dt acc show ?thesis
          unfolding advance_running_eq [OF False] m v step_loop_last_delta by simp
      next
        case (Inr p)
        then obtain r2 env2 steps where lp: "step_loop (?R acc) env 0 = Inr (r2, env2, steps)"
          by (cases p) auto
        let ?r4 = "\<lambda>d. r2\<lparr> m_last_delta := d, m_last_steps := steps,
                        m_accumulator := min (m_accumulator r2) (max_acc (m_config r2)) \<rparr>"
        have l: "advance r e env = Inr (alpha (?r4 e), ?r4 e, env2)"
          using dt acc lp
          unfolding advance_running_eq [OF False] m v step_loop_last_delta
          by (simp add: Let_def)
        have r: "advance r ?md env = Inr (alpha (?r4 ?md), ?r4 ?md, env2)"
          using dt acc lp
          unfolding advance_running_eq [OF False] m v step_loop_last_delta
          by (simp add: Let_def)
        have "alpha (?r4 e) = alpha (?r4 ?md)" by (rule alpha_frame) simp_all
        with l r False show ?thesis by simp
      qed
    qed
  qed
qed

lemma tick_no_terminate:
  assumes "error_function_returns r"
  shows "tick r now env \<noteq> Inl Terminate"
proof (cases "m_paused r")
  case True
  then show ?thesis by (simp add: tick_def tick_with_clock_def Let_def)
next
  case False
  let ?r1 = "if m_last r = 0 then r\<lparr> m_last := now \<rparr> else r"
  have safe: "error_function_returns (?r1\<lparr> m_last := now \<rparr>)"
    using assms by (simp add: error_function_returns_def)
  show ?thesis
  proof (cases "checked (now - m_last ?r1)")
    case (Inl f)
    then have "f = Undefined_Behaviour" by (auto simp: checked_def split: if_splits)
    with Inl False show ?thesis by (simp add: tick_def tick_with_clock_def Let_def)
  next
    case (Inr raw)
    from advance_no_terminate [OF safe, of raw env] Inr False show ?thesis
      by (simp add: tick_def tick_with_clock_def Let_def)
  qed
qed

text \<open>
  For elapsed times that are not negative the accumulator stays non-negative, under
  the configuration the specification describes.
\<close>

lemma accumulator_nonneg_preserved:
  assumes "advance r e env = Inr (a, r', env')"
    and "0 \<le> m_accumulator r" and "0 \<le> e"
    and "0 \<le> safety_max_delta (m_config r)" and "0 \<le> time_scale (m_config r)"
    and "0 \<le> max_acc (m_config r)"
  shows "0 \<le> m_accumulator r'"
proof (cases "m_paused r")
  case True
  with assms(1,2) show ?thesis by (auto simp: advance_paused)
next
  case False
  from False assms(1) show ?thesis
  proof (rule advance_running_facts)
    fix dt evs
    let ?left = "m_accumulator r + dt - int (m_last_steps r') * step (m_config r)"
    assume sc: "scale_dt (m_config r) (min e (safety_max_delta (m_config r))) = Inr dt"
      and acc: "m_accumulator r' = min ?left (max_acc (m_config r))"
      and ran: "0 \<le> m_accumulator r + dt \<or> 0 < m_last_steps r' \<Longrightarrow> 0 \<le> ?left"
    from assms(3,4) have "0 \<le> min e (safety_max_delta (m_config r))" by simp
    with sc have "0 \<le> dt" using assms(5) by (rule scale_dt_nonneg)
    with assms(2) ran have "0 \<le> ?left" by simp
    with acc assms(6) show ?thesis by simp
  qed
qed

text \<open>
  On a runner that is not paused and whose error function, if set, returns
  normally, a failure of the step function never leaves \<^verbatim>\<open>push_time\<close> or \<^verbatim>\<open>tick\<close>
  (neither ends in \<open>Terminate\<close>). When \<^verbatim>\<open>push_time\<close> returns, the number of steps is
  the number of whole steps in the accumulated time, capped by \<^verbatim>\<open>safety_max_substeps\<close>,
  whatever the step function did; the accumulator has lost one step per step taken
  (before the trim); the step function was invoked once per step; the error function
  was invoked once per failed step; and \<^verbatim>\<open>step_error_caught()\<close> is true exactly when
  a step failed.
\<close>

lemma step_failure_is_contained:
  assumes "\<not> m_paused r" and "error_function_returns r" and "0 < step (m_config r)"
  shows "push_time r e env \<noteq> Inl Terminate \<and> tick r now env \<noteq> Inl Terminate \<and>
         (\<forall>a r' env'. push_time r e env = Inr (a, r', env') \<longrightarrow>
            (\<exists>dt. scale_dt (m_config r) (min e (safety_max_delta (m_config r))) = Inr dt \<and>
               last_steps r'
                 = min (safety_max_substeps (m_config r))
                       (nat ((accumulator r + dt) div step (m_config r))) \<and>
               accumulator r'
                 = min (accumulator r + dt - int (last_steps r') * step (m_config r))
                       (max_acc (m_config r))) \<and>
            calls env' = calls env @ new_calls env env' \<and>
            step_calls (new_calls env env')
              = (if m_on_update_function r = None then 0 else last_steps r') \<and>
            error_calls (new_calls env env')
              = (if m_on_error_function r = None then 0
                 else thrown_steps (new_calls env env')) \<and>
            (step_error_caught r' \<longleftrightarrow> 0 < thrown_steps (new_calls env env')))"
proof (intro conjI allI impI)
  show "push_time r e env \<noteq> Inl Terminate"
    using advance_no_terminate [OF assms(2)] by (simp add: push_time_def)
  show "tick r now env \<noteq> Inl Terminate"
    using assms(2) by (rule tick_no_terminate)
next
  fix a r' env'
  assume "push_time r e env = Inr (a, r', env')"
  then have adv: "advance r e env = Inr (a, r', env')" by (simp add: push_time_def)
  from assms(1) adv obtain dt where
    sc: "scale_dt (m_config r) (min e (safety_max_delta (m_config r))) = Inr dt" and
    acc: "m_accumulator r' =
           min (m_accumulator r + dt - int (m_last_steps r') * step (m_config r))
               (max_acc (m_config r))"
    by (rule advance_running_facts)
  from advance_steps_closed_form [OF assms(1) adv assms(3) sc] sc acc
  show "\<exists>dt. scale_dt (m_config r) (min e (safety_max_delta (m_config r))) = Inr dt \<and>
               last_steps r'
                 = min (safety_max_substeps (m_config r))
                       (nat ((accumulator r + dt) div step (m_config r))) \<and>
               accumulator r'
                 = min (accumulator r + dt - int (last_steps r') * step (m_config r))
                       (max_acc (m_config r))"
    by (simp add: last_steps_def accumulator_def)
  from advance_log [OF assms(1) adv]
  show "calls env' = calls env @ new_calls env env'"
    and "step_calls (new_calls env env')
              = (if m_on_update_function r = None then 0 else last_steps r')"
    and "error_calls (new_calls env env')
              = (if m_on_error_function r = None then 0
                 else thrown_steps (new_calls env env'))"
    and "step_error_caught r' \<longleftrightarrow> 0 < thrown_steps (new_calls env env')"
    by (simp_all add: last_steps_def step_error_caught_def)
qed

text \<open>
  The value of \<^verbatim>\<open>alpha()\<close> when the step and the ceiling are below \<open>2 ^ 53\<close>
  nanoseconds, so that both conversions are exact and only the quotient is rounded.
\<close>

lemma alpha_bounds:
  assumes a0: "0 \<le> m_accumulator r" and a1: "m_accumulator r \<le> acc_ceiling (m_config r)"
    and s0: "0 < step (m_config r)" and s1: "step (m_config r) < 2 ^ 53"
    and c1: "acc_ceiling (m_config r) < 2 ^ 53"
  shows "\<exists>q. alpha r = Finite q \<and> 0 \<le> q \<and>
           q \<le> of_nat (safety_max_accumulator_overflow (m_config r)) \<and>
           (m_accumulator r < step (m_config r) \<longrightarrow> q < 1)"
proof -
  let ?a = "m_accumulator r" and ?s = "step (m_config r)"
  let ?n = "safety_max_accumulator_overflow (m_config r)"
  let ?q = "of_int ?a / of_int ?s :: rat"
  from a0 a1 c1 have "nearest (of_int ?a) = of_int ?a" by (intro nearest_of_int) simp
  moreover from s0 s1 have "nearest (of_int ?s) = of_int ?s" by (intro nearest_of_int) simp
  ultimately have al: "alpha r = to_double ?q" using s0 by (simp add: alpha_def Let_def)
  from a0 s0 have q0: "0 \<le> ?q" by simp
  from a1 have "(of_int ?a :: rat) \<le> of_int (?s * int ?n)"
    unfolding acc_ceiling_def by (simp only: of_int_le_iff)
  then have "(of_int ?a :: rat) \<le> of_nat ?n * of_int ?s" by (simp add: mult.commute)
  with s0 have q1: "?q \<le> of_nat ?n" by (simp add: pos_divide_le_eq)
  have up: "\<exists>y. to_double ?q = Finite y \<and> 0 \<le> y \<and> y \<le> of_nat ?n"
  proof (cases "?n = 0")
    case True
    with a0 a1 have "?a = 0" by (simp add: acc_ceiling_def)
    then show ?thesis by (simp add: to_double_def nearest_def)
  next
    case False
    from s0 have "int ?n * 1 \<le> int ?n * ?s" by (intro mult_left_mono) simp_all
    with c1 have "int ?n < 2 ^ 53" by (simp add: acc_ceiling_def mult.commute)
    then have "(of_int (int ?n) :: rat) < 2 ^ 53"
      by (metis of_int_less_iff of_int_numeral of_int_power)
    then have v: "(of_nat ?n :: rat) < 2 powi (52 + 1)" by simp
    have grid: "(of_nat ?n :: rat) / 2 powi e \<in> \<int>" if "e \<le> max (52 - 52) (- 1074)" for e
      using int_on_grid [of e "int ?n"] that by simp
    from q0 q1 v _ grid show ?thesis by (rule to_double_le) simp
  qed
  have one: "\<exists>y. to_double ?q = Finite y \<and> y < 1" if "?a < ?s"
  proof -
    let ?v = "of_int (2 ^ 53 - 1) * 2 powi (- 53) :: rat"
    from that s1 have "?a * 2 ^ 53 \<le> ?s * (2 ^ 53 - 1)" by simp
    then have "(of_int (?a * 2 ^ 53) :: rat) \<le> of_int (?s * (2 ^ 53 - 1))"
      by (simp only: of_int_le_iff)
    then have "(of_int ?a :: rat) * 2 ^ 53 \<le> of_int ?s * (2 ^ 53 - 1)" by simp
    with s0 have le: "?q \<le> ?v"
      by (simp add: power_int_minus field_simps)
    have v: "?v < 2 powi (- 1 + 1)" by (simp add: power_int_minus)
    have grid: "?v / 2 powi e \<in> \<int>" if "e \<le> max (- 1 - 52) (- 1074)" for e
      using that by (intro power_on_grid) simp
    from q0 le v _ grid have "\<exists>y. to_double ?q = Finite y \<and> 0 \<le> y \<and> y \<le> ?v"
      by (rule to_double_le) simp
    moreover have "?v < 1" by (simp add: power_int_minus)
    ultimately show ?thesis by auto
  qed
  from up one al show ?thesis by auto
qed

section \<open>Evaluating the scenarios\<close>

text \<open>Conversions and quotients that the scenarios meet; all of them are exact.\<close>

lemma nearest_numeral: "numeral k < (2::int) ^ 53 \<Longrightarrow> nearest (numeral k) = numeral k"
  using nearest_of_int [of "numeral k"] by simp

lemma nearest_neg_numeral:
  "numeral k < (2::int) ^ 53 \<Longrightarrow> nearest (- numeral k) = - numeral k"
  using nearest_of_int [of "- numeral k"] by simp

lemma nearest_0: "nearest 0 = 0"
  by (simp add: nearest_def)

lemma nearest_1: "nearest 1 = 1"
  using nearest_of_int [of 1] by simp

lemma nearest_neg_1: "nearest (- 1) = - 1"
  using nearest_of_int [of "- 1"] by simp

lemma to_double_numeral:
  assumes "numeral k < (2::int) ^ 53"
  shows "to_double (numeral k) = Finite (numeral k)"
proof -
  from assms have "(numeral k :: rat) < 2 ^ 53"
    by (metis of_int_less_iff of_int_numeral of_int_power)
  also have "(2::rat) ^ 53 < 2 ^ 1024" by (rule power_strict_increasing) simp_all
  finally have "\<not> (2::rat) powi 1024 \<le> \<bar>numeral k\<bar>" by (simp only: power_int_numeral abs_numeral not_le)
  then show ?thesis by (simp only: to_double_def Let_def nearest_numeral [OF assms] if_False)
qed

lemma to_double_0: "to_double 0 = Finite 0"
  by (simp add: to_double_def nearest_0)

lemma to_double_half: "to_double (1 / 2) = Finite (1 / 2)"
  by code_simp

lemma to_double_five_halves: "to_double (5 / 2) = Finite (5 / 2)"
  by code_simp

lemma to_double_default_step:
  "to_double (- (1 / 16666667)) = Finite (- (4533471732885425 / 75557863725914323419136))"
  by code_simp

lemmas double_evals = nearest_numeral nearest_neg_numeral nearest_0 nearest_1 nearest_neg_1
  to_double_numeral to_double_0 to_double_half to_double_five_halves to_double_default_step

lemmas scenario_defs = scenario_A_def scenario_B_def scenario_C_def scenario_E_def
  scenario_config_def FixedTimestepRunner_def default_runner_def reset_def start_def
  count_steps_def fails_first_def note_error_def set_error_function_def

lemmas operation_defs = push_time_def tick_def tick_with_clock_def advance_def alpha_def
  scale_dt_def checked_def int64_range_def max_acc_def to_int64_def duration_cast_def
  try_step_def call_step_def call_error_def pause_def set_step_def Let_def double_evals

lemmas observation_defs = observed_def observe_def accumulator_def last_steps_def
  last_delta_def step_error_caught_def new_calls_def step_calls_def thrown_steps_def
  error_calls_def

text \<open>
  Where the rounding shows. At a time scale of 0.7 (the \<^verbatim>\<open>double\<close> nearest to it),
  10 ms are scaled to exactly 7000000 ns, where the exact product would be truncated
  to 6999999 ns; at 0.6, 500 ms are scaled to exactly 300 ms. With a step of \<open>2 ^ 60\<close> ns
  and an accumulator one nanosecond below it, \<^verbatim>\<open>alpha()\<close> is exactly 1.
\<close>

lemma scale_dt_rounds_product:
  "scale_dt (scenario_config\<lparr> time_scale := 3152519739159347 / 4503599627370496 \<rparr>) 10000000
     = Inr 7000000"
  "duration_cast (10000000 * (3152519739159347 / 4503599627370496)) = 6999999"
  "scale_dt (scenario_config\<lparr> time_scale := 5404319552844595 / 9007199254740992 \<rparr>) 500000000
     = Inr 300000000"
  "duration_cast (500000000 * (5404319552844595 / 9007199254740992)) = 299999999"
  by code_simp+

lemma alpha_rounds_quotient:
  "alpha ((default_runner :: nat Runner)
            \<lparr> m_config := scenario_config\<lparr> step := 2 ^ 60 \<rparr>, m_accumulator := 2 ^ 60 - 1 \<rparr>)
     = Finite 1"
  by code_simp

text \<open>
  Scenario E: the step function throws on the first of two due steps. The flag is
  set, the error function runs once, two steps are counted, and the accumulator goes
  from 250 ms to 50 ms.
\<close>

lemma step_failure_is_contained_scenario_E:
  "\<not> m_paused scenario_E \<and> error_function_returns scenario_E \<and>
   0 < step (m_config scenario_E) \<and>
   push_time scenario_E 250000000 start
     = Inr (Finite (1 / 2),
            scenario_E\<lparr> m_accumulator := 50000000, m_last_delta := 250000000,
                        m_last_steps := 2, m_step_error_caught := True \<rparr>,
            \<lparr> world = 2,
              calls = [Step_Call 100000000 Throws, Error_Call Returns,
                       Step_Call 100000000 Returns] \<rparr>) \<and>
   step_error_caught (scenario_E\<lparr> m_accumulator := 50000000, m_last_delta := 250000000,
                        m_last_steps := 2, m_step_error_caught := True \<rparr>) \<and>
   last_steps (scenario_E\<lparr> m_accumulator := 50000000, m_last_delta := 250000000,
                        m_last_steps := 2, m_step_error_caught := True \<rparr>) = 2 \<and>
   error_calls [Step_Call 100000000 Throws, Error_Call Returns,
                Step_Call 100000000 Returns] = 1 \<and>
   accumulator scenario_E + 250000000 - 2 * step (m_config scenario_E) = 50000000"
proof -
  have p: "\<not> m_paused scenario_E" by (simp add: scenario_defs)
  have g: "error_function_returns scenario_E"
    by (simp add: scenario_defs error_function_returns_def)
  have s: "0 < step (m_config scenario_E)" by (simp add: scenario_defs)
  have h: "push_time scenario_E 250000000 start
     = Inr (Finite (1 / 2),
            scenario_E\<lparr> m_accumulator := 50000000, m_last_delta := 250000000,
                        m_last_steps := 2, m_step_error_caught := True \<rparr>,
            \<lparr> world = 2,
              calls = [Step_Call 100000000 Throws, Error_Call Returns,
                       Step_Call 100000000 Returns] \<rparr>)"
    by (simp add: scenario_defs operation_defs step_loop.simps)
  have v: "error_calls [Step_Call 100000000 Throws, Error_Call Returns,
                Step_Call 100000000 Returns] = 1"
    "accumulator scenario_E + 250000000 - 2 * step (m_config scenario_E) = 50000000"
    by (simp_all add: error_calls_def scenario_defs accumulator_def)
  from step_failure_is_contained [OF p g s, of 250000000 start 0] p g s h v show ?thesis
    by (simp add: step_error_caught_def last_steps_def)
qed

section \<open>The claims of the specification\<close>

text \<open>
  C1, as amended. For a runner that is not paused and a non-negative elapsed time not
  above \<^verbatim>\<open>safety_max_delta\<close>, a returning \<^verbatim>\<open>push_time\<close> leaves the accumulator at
  the smaller of (accumulator before + scaled elapsed time - steps taken * step) and
  the ceiling step * overflow multiplier: the equation of the claim holds unless the
  overflow trim applies. Whenever fewer than \<^verbatim>\<open>safety_max_substeps\<close> steps were
  taken, and the accumulator before and the time scale are not negative, the
  accumulator after lies in [0, step). The scaled elapsed time is what \<open>scale_dt\<close>
  computes: the product in \<^verbatim>\<open>double\<close> arithmetic, truncated. The ceiling is assumed to
  fit 64 bits.
\<close>

theorem advance_accumulator:
  assumes "\<not> m_paused r" and "0 \<le> e" and "e \<le> safety_max_delta (m_config r)"
    and "int64_range (acc_ceiling (m_config r))"
    and "push_time r e env = Inr (a, r', env')"
  shows "\<exists>dt. scale_dt (m_config r) e = Inr dt \<and>
           accumulator r' =
             min (accumulator r + dt - int (last_steps r') * step (m_config r))
                 (acc_ceiling (m_config r)) \<and>
           (0 \<le> accumulator r \<and> 0 \<le> time_scale (m_config r) \<and>
            last_steps r' < safety_max_substeps (m_config r) \<longrightarrow>
              0 \<le> accumulator r' \<and> accumulator r' < step (m_config r))"
proof -
  from assms(5) have adv: "advance r e env = Inr (a, r', env')" by (simp add: push_time_def)
  from assms(3) have m: "min e (safety_max_delta (m_config r)) = e" by simp
  from assms(4) have mx: "max_acc (m_config r) = acc_ceiling (m_config r)"
    by (simp add: acc_ceiling_def max_acc_exact)
  from assms(1) adv show ?thesis
  proof (rule advance_running_facts)
    fix dt evs
    let ?left = "m_accumulator r + dt - int (m_last_steps r') * step (m_config r)"
    assume sc: "scale_dt (m_config r) (min e (safety_max_delta (m_config r))) = Inr dt"
      and acc: "m_accumulator r' = min ?left (max_acc (m_config r))"
      and stop: "m_last_steps r' < safety_max_substeps (m_config r) \<Longrightarrow> ?left < step (m_config r)"
      and ran: "0 \<le> m_accumulator r + dt \<or> 0 < m_last_steps r' \<Longrightarrow> 0 \<le> ?left"
    have "0 \<le> m_accumulator r' \<and> m_accumulator r' < step (m_config r)"
      if "0 \<le> m_accumulator r" "0 \<le> time_scale (m_config r)"
        "m_last_steps r' < safety_max_substeps (m_config r)"
    proof -
      from sc m that(2) assms(2) have "0 \<le> dt" by (simp add: scale_dt_nonneg)
      with that(1) ran have l0: "0 \<le> ?left" by simp
      from stop that(3) have l1: "?left < step (m_config r)" by simp
      from l0 l1 have "0 < step (m_config r)" by simp
      then have "0 \<le> acc_ceiling (m_config r)" by (simp add: acc_ceiling_def)
      with l0 l1 acc mx show ?thesis by simp
    qed
    with sc m acc mx show ?thesis
      by (simp add: accumulator_def last_steps_def)
  qed
qed

text \<open>Scenario C: 300 ms at half speed give one step and leave 50 ms.\<close>

theorem advance_accumulator_witness:
  "\<not> m_paused scenario_C \<and> (0 :: int) \<le> 300000000 \<and>
   300000000 \<le> safety_max_delta (m_config scenario_C) \<and>
   int64_range (acc_ceiling (m_config scenario_C)) \<and>
   push_time scenario_C 300000000 start
     = Inr (Finite (1 / 2),
            scenario_C\<lparr> m_accumulator := 50000000, m_last_delta := 300000000,
                        m_last_steps := 1 \<rparr>,
            \<lparr> world = 1, calls = [Step_Call 100000000 Returns] \<rparr>) \<and>
   scale_dt (m_config scenario_C) 300000000 = Inr 150000000 \<and>
   accumulator scenario_C = 0 \<and> step (m_config scenario_C) = 100000000 \<and>
   acc_ceiling (m_config scenario_C) = 300000000 \<and>
   safety_max_substeps (m_config scenario_C) = 8"
proof -
  have p: "\<not> m_paused scenario_C" by (simp add: scenario_defs)
  have e: "(0 :: int) \<le> 300000000" by simp
  have d: "300000000 \<le> safety_max_delta (m_config scenario_C)" by (simp add: scenario_defs)
  have c: "int64_range (acc_ceiling (m_config scenario_C))"
    by (simp add: scenario_defs acc_ceiling_def int64_range_def)
  have h: "push_time scenario_C 300000000 start
     = Inr (Finite (1 / 2),
            scenario_C\<lparr> m_accumulator := 50000000, m_last_delta := 300000000,
                        m_last_steps := 1 \<rparr>,
            \<lparr> world = 1, calls = [Step_Call 100000000 Returns] \<rparr>)"
    by (simp add: scenario_defs operation_defs step_loop.simps)
  from advance_accumulator [OF p e d c h] p d c h show ?thesis
    by (simp add: scenario_defs acc_ceiling_def accumulator_def scale_dt_def checked_def
        int64_range_def duration_cast_def double_evals)
qed

text \<open>
  The claim as stated fails in scenario B, where 1000 ms do not exceed the largest
  delta of 2000 ms: two steps are taken, and the accumulator is trimmed to 300 ms, not
  left at 800 ms. It also fails on a paused runner, whose accumulator stays 0 when
  50 ms are pushed.
\<close>

theorem advance_accumulator_counterexample:
  "\<not> m_paused scenario_B \<and> (0 :: int) \<le> 1000000000 \<and>
   1000000000 \<le> safety_max_delta (m_config scenario_B) \<and>
   scale_dt (m_config scenario_B) 1000000000 = Inr 1000000000 \<and>
   accumulator scenario_B = 0 \<and> step (m_config scenario_B) = 100000000 \<and>
   observed [Push_Time 1000000000] (scenario_B, start)
     = Inr (Finite 3, 300000000, 2, False, 2,
            [Step_Call 100000000 Returns, Step_Call 100000000 Returns]) \<and>
   (300000000 :: int) \<noteq> 0 + 1000000000 - 2 * 100000000 \<and>
   (50000000 :: int) \<le> safety_max_delta (m_config scenario_A) \<and>
   scale_dt (m_config scenario_A) 50000000 = Inr 50000000 \<and>
   observed [Pause True] (scenario_A, start) = Inr (Finite 0, 0, 0, False, 0, []) \<and>
   observed [Pause True, Push_Time 50000000] (scenario_A, start)
     = Inr (Finite 0, 0, 0, False, 0, []) \<and>
   (0 :: int) \<noteq> 0 + 50000000 - 0 * 100000000"
  by (simp add: scenario_defs operation_defs observation_defs step_loop.simps)

text \<open>
  C2. Whatever the elapsed time, a call of advance that returns has executed at most
  \<^verbatim>\<open>safety_max_substeps\<close> fixed steps: the count it records in \<^verbatim>\<open>last_steps()\<close>
  is at most the cap, and the step function was invoked at most that many times.
\<close>

theorem advance_steps_bounded:
  assumes "advance r e env = Inr (a, r', env')"
  shows "last_steps r' \<le> safety_max_substeps (m_config r') \<and>
         step_calls (new_calls env env') \<le> last_steps r'"
proof (cases "m_paused r")
  case True
  with assms show ?thesis
    by (auto simp: advance_paused last_steps_def new_calls_same step_calls_def)
next
  case False
  from advance_frame(1) [OF assms] have cfg: "m_config r' = m_config r" .
  from False assms have "m_last_steps r' \<le> safety_max_substeps (m_config r)"
    by (rule advance_running_facts)
  moreover from advance_log(2) [OF False assms]
  have "step_calls (new_calls env env') \<le> m_last_steps r'" by simp
  ultimately show ?thesis by (simp add: last_steps_def cfg)
qed

text \<open>
  Scenario B with the largest 64-bit elapsed time: the delta is clamped to 2000 ms and
  the loop stops at the cap of 2 steps.
\<close>

theorem advance_steps_bounded_witness:
  "advance scenario_B 9223372036854775807 start
     = Inr (Finite 3,
            scenario_B\<lparr> m_accumulator := 300000000, m_last_delta := 9223372036854775807,
                        m_last_steps := 2 \<rparr>,
            \<lparr> world = 2,
              calls = [Step_Call 100000000 Returns, Step_Call 100000000 Returns] \<rparr>) \<and>
   last_steps (scenario_B\<lparr> m_accumulator := 300000000,
                 m_last_delta := 9223372036854775807, m_last_steps := 2 \<rparr>) = 2 \<and>
   safety_max_substeps (m_config scenario_B) = 2"
proof -
  have h: "advance scenario_B 9223372036854775807 start
     = Inr (Finite 3,
            scenario_B\<lparr> m_accumulator := 300000000, m_last_delta := 9223372036854775807,
                        m_last_steps := 2 \<rparr>,
            \<lparr> world = 2,
              calls = [Step_Call 100000000 Returns, Step_Call 100000000 Returns] \<rparr>)"
    by (simp add: scenario_defs operation_defs step_loop.simps)
  from advance_steps_bounded [OF h] h show ?thesis
    by (simp add: scenario_defs observation_defs)
qed

text \<open>
  C3. The claim fails on the code: a freshly constructed runner with the default
  configuration has accumulator 0, and \<^verbatim>\<open>push_time\<close> with an elapsed time of -1 ns
  leaves the accumulator at -1 ns and returns a negative alpha.
\<close>

theorem push_time_negative_elapsed:
  "observed [] (FixedTimestepRunner None default_config 0, start)
     = Inr (Finite 0, 0, 0, False, 0, []) \<and>
   observed [Push_Time (- 1)] (FixedTimestepRunner None default_config 0, start)
     = Inr (Finite (- (4533471732885425 / 75557863725914323419136)), - 1, 0, False, 0, [])"
  by (simp add: scenario_defs operation_defs observation_defs step_loop.simps
      default_config_def k_step_60hz_def k_default_time_scale_def k_default_max_delta_def
      k_default_max_substeps_def k_default_max_accumulator_overflow_def)

text \<open>
  C4, as amended. Right after a returning \<^verbatim>\<open>push_time\<close> with a non-negative elapsed
  time on a runner that is not paused, alpha lies in the closed interval from 0 to the
  overflow multiplier, and in [0, 1) whenever fewer than \<^verbatim>\<open>safety_max_substeps\<close> steps
  were taken. The accumulator before, the time scale and the largest delta are assumed
  not to be negative, the step positive, and the step and the ceiling below \<open>2 ^ 53\<close>
  nanoseconds, so that their conversions to \<^verbatim>\<open>double\<close> are exact; beyond that the
  rounding can reach 1, or pass the multiplier.
\<close>

theorem alpha_range:
  assumes "\<not> m_paused r" and "0 \<le> e" and "0 \<le> safety_max_delta (m_config r)"
    and "0 \<le> accumulator r" and "0 < step (m_config r)" and "0 \<le> time_scale (m_config r)"
    and "step (m_config r) < 2 ^ 53" and "acc_ceiling (m_config r) < 2 ^ 53"
    and "push_time r e env = Inr (a, r', env')"
  shows "\<exists>q. a = Finite q \<and> alpha r' = Finite q \<and> 0 \<le> q \<and>
           q \<le> of_nat (safety_max_accumulator_overflow (m_config r')) \<and>
           (last_steps r' < safety_max_substeps (m_config r') \<longrightarrow> q < 1)"
proof -
  from assms(9) have adv: "advance r e env = Inr (a, r', env')" by (simp add: push_time_def)
  from advance_frame(1,6) [OF adv] have cfg: "m_config r' = m_config r" and al: "a = alpha r'"
    by simp_all
  let ?s = "step (m_config r)"
  from assms(5) have c0: "0 \<le> acc_ceiling (m_config r)" by (simp add: acc_ceiling_def)
  with assms(8) have "int64_range (acc_ceiling (m_config r))" by (simp add: int64_range_def)
  then have mx: "max_acc (m_config r) = acc_ceiling (m_config r)"
    by (simp add: acc_ceiling_def max_acc_exact)
  from assms(1) adv show ?thesis
  proof (rule advance_running_facts)
    fix dt evs
    let ?left = "m_accumulator r + dt - int (m_last_steps r') * ?s"
    assume sc: "scale_dt (m_config r) (min e (safety_max_delta (m_config r))) = Inr dt"
      and acc: "m_accumulator r' = min ?left (max_acc (m_config r))"
      and stop: "m_last_steps r' < safety_max_substeps (m_config r) \<Longrightarrow> ?left < ?s"
      and ran: "0 \<le> m_accumulator r + dt \<or> 0 < m_last_steps r' \<Longrightarrow> 0 \<le> ?left"
    from assms(2,3) have "0 \<le> min e (safety_max_delta (m_config r))" by simp
    with sc have "0 \<le> dt" using assms(6) by (rule scale_dt_nonneg)
    with assms(4) ran have l0: "0 \<le> ?left" by (simp add: accumulator_def)
    from l0 c0 acc mx have a0: "0 \<le> m_accumulator r'" by simp
    from acc mx have a1: "m_accumulator r' \<le> acc_ceiling (m_config r')" by (simp add: cfg)
    from a0 a1 assms(5,7,8) obtain q where
      aq: "alpha r' = Finite q" and q0: "0 \<le> q"
      and q1: "q \<le> of_nat (safety_max_accumulator_overflow (m_config r'))"
      and q2: "m_accumulator r' < step (m_config r') \<longrightarrow> q < 1"
      using alpha_bounds [of r'] by (auto simp: cfg)
    have "q < 1" if "m_last_steps r' < safety_max_substeps (m_config r)"
    proof -
      from stop [OF that] acc have "m_accumulator r' < ?s" by simp
      with q2 cfg show ?thesis by simp
    qed
    with al aq q0 q1 cfg show ?thesis by (simp add: last_steps_def)
  qed
qed

text \<open>Scenario A: two steps of eight, and alpha is one half.\<close>

theorem alpha_range_witness:
  "\<not> m_paused scenario_A \<and> (0 :: int) \<le> 350000000 \<and>
   0 \<le> safety_max_delta (m_config scenario_A) \<and> 0 \<le> accumulator scenario_A \<and>
   0 < step (m_config scenario_A) \<and> 0 \<le> time_scale (m_config scenario_A) \<and>
   step (m_config scenario_A) < 2 ^ 53 \<and> acc_ceiling (m_config scenario_A) < 2 ^ 53 \<and>
   push_time scenario_A 350000000 start
     = Inr (Finite (1 / 2),
            scenario_A\<lparr> m_accumulator := 50000000, m_last_delta := 350000000,
                        m_last_steps := 2 \<rparr>,
            \<lparr> world = 2,
              calls = [Step_Call 100000000 Returns, Step_Call 100000000 Returns] \<rparr>) \<and>
   alpha (scenario_A\<lparr> m_accumulator := 50000000, m_last_delta := 350000000,
                      m_last_steps := 2 \<rparr>) = Finite (1 / 2) \<and>
   (1 / 2 :: rat) < 1"
proof -
  have p: "\<not> m_paused scenario_A" by (simp add: scenario_defs)
  have e: "(0 :: int) \<le> 350000000" by simp
  have d: "0 \<le> safety_max_delta (m_config scenario_A)" by (simp add: scenario_defs)
  have a: "0 \<le> accumulator scenario_A" by (simp add: scenario_defs accumulator_def)
  have s: "0 < step (m_config scenario_A)" by (simp add: scenario_defs)
  have t: "0 \<le> time_scale (m_config scenario_A)" by (simp add: scenario_defs)
  have u: "step (m_config scenario_A) < 2 ^ 53" by (simp add: scenario_defs)
  have c: "acc_ceiling (m_config scenario_A) < 2 ^ 53"
    by (simp add: scenario_defs acc_ceiling_def)
  have h: "push_time scenario_A 350000000 start
     = Inr (Finite (1 / 2),
            scenario_A\<lparr> m_accumulator := 50000000, m_last_delta := 350000000,
                        m_last_steps := 2 \<rparr>,
            \<lparr> world = 2,
              calls = [Step_Call 100000000 Returns, Step_Call 100000000 Returns] \<rparr>)"
    by (simp add: scenario_defs operation_defs step_loop.simps)
  have v: "alpha (scenario_A\<lparr> m_accumulator := 50000000, m_last_delta := 350000000,
                      m_last_steps := 2 \<rparr>) = Finite (1 / 2)"
    by (simp add: scenario_defs alpha_def Let_def double_evals)
  from alpha_range [OF p e d a s t u c h] p d a s t u c h v show ?thesis
    by simp
qed

text \<open>
  The claim as stated fails in three ways. In scenario B the trim leaves alpha at
  exactly the overflow multiplier 3, which the half-open interval excludes. With
  450 ms in scenario B the cap of 2 steps leaves 250 ms, below the ceiling of 300 ms,
  so nothing is trimmed and alpha is 5/2. After \<^verbatim>\<open>set_step\<close> to 10 ms, \<^verbatim>\<open>alpha()\<close>
  returns 30.
\<close>

theorem alpha_range_counterexample:
  "safety_max_accumulator_overflow (m_config scenario_B) = 3 \<and>
   observed [Push_Time 1000000000] (scenario_B, start)
     = Inr (Finite 3, 300000000, 2, False, 2,
            [Step_Call 100000000 Returns, Step_Call 100000000 Returns]) \<and>
   \<not> (3 :: rat) < 3 \<and>
   observed [Push_Time 450000000] (scenario_B, start)
     = Inr (Finite (5 / 2), 250000000, 2, False, 2,
            [Step_Call 100000000 Returns, Step_Call 100000000 Returns]) \<and>
   max_acc (m_config scenario_B) = 300000000 \<and>
   \<not> max_acc (m_config scenario_B) < 0 + 450000000 - 2 * step (m_config scenario_B) \<and>
   \<not> (5 / 2 :: rat) < 1 \<and>
   observed [Push_Time 1000000000, Set_Step 10000000] (scenario_B, start)
     = Inr (Finite 30, 300000000, 2, False, 2,
            [Step_Call 100000000 Returns, Step_Call 100000000 Returns]) \<and>
   \<not> (30 :: rat) < 3"
  by (simp add: scenario_defs operation_defs observation_defs step_loop.simps)

text \<open>
  C5. The claim fails on the code when the error function itself throws. In scenario E,
  where the error function returns, the failure of the first step is contained: the
  flag is set, the error function runs once, two steps are counted and the accumulator
  goes from 250 ms to 50 ms. With an error function that throws, the same call does
  not return: the exception leaves the handler and the \<^verbatim>\<open>noexcept\<close> function, and the
  process terminates before the step is subtracted or the second step runs.
\<close>

theorem error_function_failure_terminates:
  "observed [Push_Time 250000000] (scenario_E, start)
     = Inr (Finite (1 / 2), 50000000, 2, True, 2,
            [Step_Call 100000000 Throws, Error_Call Returns, Step_Call 100000000 Returns]) \<and>
   observed [Push_Time 250000000] (set_error_function (Some raise_error) scenario_E, start)
     = Inl Terminate"
  by (simp add: scenario_defs raise_error_def operation_defs observation_defs step_loop.simps)

text \<open>
  C6. The claim fails on the code for a paused runner. In scenario E the first call
  catches a failure of the step function. The runner is then paused and called again:
  the second call invokes nothing (the world and the call log are as they were), and
  \<^verbatim>\<open>step_error_caught()\<close> still returns true.
\<close>

theorem step_error_caught_stale_when_paused:
  "observed [Push_Time 250000000, Pause True] (scenario_E, start)
     = Inr (Finite (1 / 2), 50000000, 2, True, 2,
            [Step_Call 100000000 Throws, Error_Call Returns, Step_Call 100000000 Returns]) \<and>
   observed [Push_Time 250000000, Pause True, Push_Time 250000000] (scenario_E, start)
     = Inr (Finite (1 / 2), 50000000, 0, True, 2,
            [Step_Call 100000000 Throws, Error_Call Returns, Step_Call 100000000 Returns])"
  by (simp add: scenario_defs operation_defs observation_defs step_loop.simps)

text \<open>
  C7, as amended. After a returning \<^verbatim>\<open>push_time\<close> on a runner that is not paused,
  whatever the elapsed time and the state before, the accumulator is at most
  step * overflow multiplier, and it is exactly that ceiling when the leftover of the
  step loop was larger. The ceiling is assumed to fit 64 bits.
\<close>

theorem accumulator_ceiling:
  assumes "\<not> m_paused r" and "int64_range (acc_ceiling (m_config r))"
    and "push_time r e env = Inr (a, r', env')"
  shows "accumulator r' \<le> acc_ceiling (m_config r') \<and>
         (\<exists>dt. scale_dt (m_config r) (min e (safety_max_delta (m_config r))) = Inr dt \<and>
            (acc_ceiling (m_config r')
               < accumulator r + dt - int (last_steps r') * step (m_config r) \<longrightarrow>
             accumulator r' = acc_ceiling (m_config r')))"
proof -
  from assms(3) have adv: "advance r e env = Inr (a, r', env')" by (simp add: push_time_def)
  from advance_frame(1) [OF adv] have cfg: "m_config r' = m_config r" .
  from assms(2) have mx: "max_acc (m_config r) = acc_ceiling (m_config r)"
    by (simp add: acc_ceiling_def max_acc_exact)
  from assms(1) adv show ?thesis
  proof (rule advance_running_facts)
    fix dt evs
    let ?left = "m_accumulator r + dt - int (m_last_steps r') * step (m_config r)"
    assume "scale_dt (m_config r) (min e (safety_max_delta (m_config r))) = Inr dt"
      and "m_accumulator r' = min ?left (max_acc (m_config r))"
    with mx cfg show ?thesis
      by (auto simp: accumulator_def last_steps_def)
  qed
qed

text \<open>
  Scenario B: 1000 ms with a cap of 2 steps leave 800 ms, which is trimmed to the
  ceiling of 300 ms.
\<close>

theorem accumulator_ceiling_witness:
  "\<not> m_paused scenario_B \<and> int64_range (acc_ceiling (m_config scenario_B)) \<and>
   push_time scenario_B 1000000000 start
     = Inr (Finite 3,
            scenario_B\<lparr> m_accumulator := 300000000, m_last_delta := 1000000000,
                        m_last_steps := 2 \<rparr>,
            \<lparr> world = 2,
              calls = [Step_Call 100000000 Returns, Step_Call 100000000 Returns] \<rparr>) \<and>
   acc_ceiling (m_config scenario_B) = 300000000 \<and>
   scale_dt (m_config scenario_B) (min 1000000000 (safety_max_delta (m_config scenario_B)))
     = Inr 1000000000 \<and>
   accumulator scenario_B = 0 \<and> step (m_config scenario_B) = 100000000"
proof -
  have p: "\<not> m_paused scenario_B" by (simp add: scenario_defs)
  have c: "int64_range (acc_ceiling (m_config scenario_B))"
    by (simp add: scenario_defs acc_ceiling_def int64_range_def)
  have h: "push_time scenario_B 1000000000 start
     = Inr (Finite 3,
            scenario_B\<lparr> m_accumulator := 300000000, m_last_delta := 1000000000,
                        m_last_steps := 2 \<rparr>,
            \<lparr> world = 2,
              calls = [Step_Call 100000000 Returns, Step_Call 100000000 Returns] \<rparr>)"
    by (simp add: scenario_defs operation_defs step_loop.simps)
  from accumulator_ceiling [OF p c h] p c h show ?thesis
    by (simp add: scenario_defs acc_ceiling_def accumulator_def scale_dt_def)
qed

text \<open>
  The claim as stated fails for a paused runner. After scenario B the accumulator is
  300 ms; \<^verbatim>\<open>set_step\<close> to 10 ms lowers the ceiling to 30 ms; the runner is paused; the
  next \<^verbatim>\<open>push_time\<close> returns with the accumulator still at 300 ms.
\<close>

theorem accumulator_ceiling_counterexample:
  "run [Push_Time 1000000000, Set_Step 10000000, Pause True] (scenario_B, start)
     = Inr (paused_backlog, two_steps) \<and>
   push_time paused_backlog 0 two_steps
     = Inr (Finite 30, paused_backlog\<lparr> m_last_delta := 0, m_last_steps := 0 \<rparr>, two_steps) \<and>
   accumulator (paused_backlog\<lparr> m_last_delta := 0, m_last_steps := 0 \<rparr>) = 300000000 \<and>
   acc_ceiling (m_config (paused_backlog\<lparr> m_last_delta := 0, m_last_steps := 0 \<rparr>)) = 30000000"
  by (simp add: paused_backlog_def two_steps_def scenario_defs operation_defs observation_defs
      acc_ceiling_def step_loop.simps)

text \<open>
  C8. While the runner is paused, a call of \<^verbatim>\<open>push_time\<close> with any elapsed time and a
  call of \<^verbatim>\<open>tick\<close> at any clock reading return the alpha the runner had, leave the
  accumulator and alpha as they were, leave the environment as it was (the step
  function is not invoked), record 0 steps, and leave the runner paused.
\<close>

theorem paused_calls_change_nothing:
  assumes "m_paused r"
  shows "(let r' = r\<lparr> m_last_delta := 0, m_last_steps := 0 \<rparr>
          in push_time r e env = Inr (alpha r, r', env) \<and>
             tick r now env = Inr (alpha r, r'\<lparr> m_last := now \<rparr>, env) \<and>
             accumulator r' = accumulator r \<and> alpha r' = alpha r \<and>
             last_steps r' = 0 \<and> m_paused r')"
  using assms
  by (simp add: push_time_def advance_paused tick_def tick_with_clock_def Let_def alpha_def
      accumulator_def last_steps_def)

text \<open>Scenario D on the paused runner of scenario E.\<close>

theorem paused_calls_change_nothing_witness:
  "m_paused (pause True scenario_E) \<and>
   push_time (pause True scenario_E) 250000000 start
     = Inr (Finite 0, pause True scenario_E, start) \<and>
   tick (pause True scenario_E) 250000000 start
     = Inr (Finite 0, (pause True scenario_E)\<lparr> m_last := 250000000 \<rparr>, start)"
proof -
  have h: "m_paused (pause True scenario_E)" by (simp add: pause_def)
  from paused_calls_change_nothing [OF h, of 250000000 start 250000000] h show ?thesis
    by (simp add: scenario_defs operation_defs)
qed

text \<open>
  C9. Clamp idempotence: from any runner state and environment, \<^verbatim>\<open>push_time\<close> with an
  elapsed time above \<^verbatim>\<open>safety_max_delta\<close> and \<^verbatim>\<open>push_time\<close> with exactly
  \<^verbatim>\<open>safety_max_delta\<close> fail alike or return the same alpha, the same step count, the
  same accumulator, the same error flag and the same environment.
\<close>

theorem clamp_idempotence:
  assumes "safety_max_delta (m_config r) < e"
  shows "(case (push_time r e env, push_time r (safety_max_delta (m_config r)) env) of
            (Inr (a1, r1, env1), Inr (a2, r2, env2)) \<Rightarrow>
              a1 = a2 \<and> last_steps r1 = last_steps r2 \<and> accumulator r1 = accumulator r2 \<and>
              step_error_caught r1 = step_error_caught r2 \<and> env1 = env2
          | (Inl f1, Inl f2) \<Rightarrow> f1 = f2
          | _ \<Rightarrow> False)"
  unfolding push_time_def advance_clamped [OF assms]
  by (simp add: last_steps_def accumulator_def step_error_caught_def
      split: sum.splits prod.splits)

text \<open>Scenario A: 350 ms against a largest delta of 250 ms.\<close>

theorem clamp_idempotence_witness:
  "safety_max_delta (m_config scenario_A) < 350000000 \<and>
   push_time scenario_A 350000000 start
     = Inr (Finite (1 / 2),
            scenario_A\<lparr> m_accumulator := 50000000, m_last_delta := 350000000,
                        m_last_steps := 2 \<rparr>,
            \<lparr> world = 2,
              calls = [Step_Call 100000000 Returns, Step_Call 100000000 Returns] \<rparr>) \<and>
   push_time scenario_A (safety_max_delta (m_config scenario_A)) start
     = Inr (Finite (1 / 2),
            scenario_A\<lparr> m_accumulator := 50000000, m_last_delta := 250000000,
                        m_last_steps := 2 \<rparr>,
            \<lparr> world = 2,
              calls = [Step_Call 100000000 Returns, Step_Call 100000000 Returns] \<rparr>)"
proof -
  have h: "safety_max_delta (m_config scenario_A) < 350000000"
    by (simp add: scenario_defs)
  have a: "push_time scenario_A 350000000 start
     = Inr (Finite (1 / 2),
            scenario_A\<lparr> m_accumulator := 50000000, m_last_delta := 350000000,
                        m_last_steps := 2 \<rparr>,
            \<lparr> world = 2,
              calls = [Step_Call 100000000 Returns, Step_Call 100000000 Returns] \<rparr>)"
    by (simp add: scenario_defs operation_defs step_loop.simps)
  from clamp_idempotence [OF h, of start] h a show ?thesis
    by (simp add: last_steps_def accumulator_def step_error_caught_def
        split: sum.splits prod.splits)
      (simp add: scenario_defs operation_defs step_loop.simps)
qed

text \<open>
  C10. After a call in which the step function threw, \<^verbatim>\<open>reset\<close> with either argument
  leaves \<^verbatim>\<open>step_error_caught()\<close> true, while the accumulator, the last delta, the
  last step count and the pause flag are reinitialised.
\<close>

theorem reset_keeps_step_error_caught:
  assumes "\<not> m_paused r" and "push_time r e env = Inr (a, r', env')"
    and "0 < thrown_steps (new_calls env env')"
  shows "step_error_caught r' \<and>
         step_error_caught (reset start_now now r') \<and>
         accumulator (reset start_now now r') = 0 \<and>
         last_delta (reset start_now now r') = 0 \<and>
         last_steps (reset start_now now r') = 0 \<and>
         \<not> m_paused (reset start_now now r')"
proof -
  from assms(2) have adv: "advance r e env = Inr (a, r', env')" by (simp add: push_time_def)
  from advance_log(4) [OF assms(1) adv] assms(3) have "m_step_error_caught r'" by simp
  then show ?thesis
    by (simp add: reset_def Let_def step_error_caught_def accumulator_def last_delta_def
        last_steps_def)
qed

text \<open>Scenario E, followed by a reset.\<close>

theorem reset_keeps_step_error_caught_witness:
  "\<not> m_paused scenario_E \<and>
   push_time scenario_E 250000000 start
     = Inr (Finite (1 / 2),
            scenario_E\<lparr> m_accumulator := 50000000, m_last_delta := 250000000,
                        m_last_steps := 2, m_step_error_caught := True \<rparr>,
            \<lparr> world = 2,
              calls = [Step_Call 100000000 Throws, Error_Call Returns,
                       Step_Call 100000000 Returns] \<rparr>) \<and>
   step_error_caught
     (reset True 7 (scenario_E\<lparr> m_accumulator := 50000000, m_last_delta := 250000000,
                        m_last_steps := 2, m_step_error_caught := True \<rparr>)) \<and>
   accumulator
     (reset True 7 (scenario_E\<lparr> m_accumulator := 50000000, m_last_delta := 250000000,
                        m_last_steps := 2, m_step_error_caught := True \<rparr>)) = 0"
proof -
  have p: "\<not> m_paused scenario_E" by (simp add: scenario_defs)
  have h: "push_time scenario_E 250000000 start
     = Inr (Finite (1 / 2),
            scenario_E\<lparr> m_accumulator := 50000000, m_last_delta := 250000000,
                        m_last_steps := 2, m_step_error_caught := True \<rparr>,
            \<lparr> world = 2,
              calls = [Step_Call 100000000 Throws, Error_Call Returns,
                       Step_Call 100000000 Returns] \<rparr>)"
    by (simp add: scenario_defs operation_defs step_loop.simps)
  have t: "0 < thrown_steps (new_calls start
            \<lparr> world = 2,
              calls = [Step_Call 100000000 Throws, Error_Call Returns,
                       Step_Call 100000000 Returns] \<rparr>)"
    by (simp add: observation_defs start_def)
  from reset_keeps_step_error_caught [OF p h t, of True 7] p h show ?thesis
    by simp
qed

end
